theory Spec2Isabelle
  imports Main "HOL-Library.Char_ord" "HOL-Library.List_Lexorder"
begin

section \<open>Data model\<close>

text \<open>
  The program is one Python module, \<open>webgui.py\<close>. Its three module-level variables
  (\<open>running\<close>, \<open>last_pin\<close>, \<open>camera\<close>) are shared by the request handlers, the
  thread that iterates the PINs and the thread that records images and video. Everything
  the module does to the outside (the GPIO line, sleeping, logging, the camera, files,
  threads) is recorded as an event of a trace, in program order.

  Durations are written in milliseconds: \<open>time.sleep(0.2)\<close> is \<open>Sleep 200\<close>,
  \<open>time.sleep(3.1)\<close> is \<open>Sleep 3100\<close>.

  The live stream (\<open>generate_video_stream\<close>, \<open>video_feed\<close>) and the routes that serve
  the stored images are not modelled: they write none of the shared variables.
\<close>

datatype exn = RuntimeError | ValueError | AttributeError | KeyboardInterrupt | SystemExit

text \<open>
  \<open>except Exception\<close> catches every exception but \<open>KeyboardInterrupt\<close> and \<open>SystemExit\<close>
  (raised by \<open>sys.exit\<close>), which derive from \<open>BaseException\<close> only.
\<close>

fun is_Exception :: "exn \<Rightarrow> bool" where
  "is_Exception KeyboardInterrupt = False"
| "is_Exception SystemExit = False"
| "is_Exception _ = True"

datatype level = INFO | WARNING | ERROR

datatype thread = BruteforceThread | RecordThread

datatype status = StatusCameraFailed | StatusStarted | StatusStopping

text \<open>The log messages of the module, one constructor per \<open>logger\<close> call site.\<close>

datatype msg =
    MsgSignal nat
  | MsgGpioInit
  | MsgGpioSetupError
  | MsgCameraInit
  | MsgCameraNotOpened
  | MsgCameraInitFailed
  | MsgCleanup
  | MsgCameraReleased
  | MsgGpioCleanupDone
  | MsgPinStart string
  | MsgDigit nat nat
  | MsgWaitDigit
  | MsgPinDone
  | MsgNoCamera
  | MsgVideoStart string
  | MsgImageSaved string
  | MsgNoFrame
  | MsgVideoEnd
  | MsgBruteStart
  | MsgStoppedByUser
  | MsgTestPin string
  | MsgBruteError exn
  | MsgBruteDone
  | MsgStatus status
  | MsgServiceStart
  | MsgServicePort
  | MsgServiceInterrupted
  | MsgServiceError

datatype event =
    GpioOut bool
  | GpioCleanup
  | Sleep nat
  | Log level msg
  | SetRunning bool
  | SetLastPin string
  | ThreadStart thread
  | ThreadJoin thread nat
  | CamSetWidth nat
  | CamSetHeight nat
  | CamRelease
  | CamRead bool
  | PutText string
  | ImWrite string
  | VideoOpen string
  | VideoWrite string
  | VideoRelease string

text \<open>
  What the module cannot decide itself is read from a \<open>world\<close>, indexed by the clock of
  the state: whether another thread handles a stop request at that moment, whether the GPIO
  driver fails, what opening the camera and reading a frame give, and what
  \<open>datetime.now().strftime('%Y%m%d_%H%M%S')\<close> returns.
\<close>

datatype open_result = Opened | NotOpened | OpenRaises

record world =
  stop_req :: "nat \<Rightarrow> bool"
  gpio_fault :: "nat \<Rightarrow> bool"
  cam_open :: "nat \<Rightarrow> open_result"
  frame_ok :: "nat \<Rightarrow> bool"
  now_stamp :: "nat \<Rightarrow> string"

text \<open>
  A \<open>cv2.VideoCapture\<close> object; the field is what \<open>isOpened()\<close> returns. The module tests
  the variable itself (\<open>if camera\<close>, \<open>if not camera\<close>): that is false for \<open>None\<close> and true
  for every \<open>VideoCapture\<close> object, opened or not.
\<close>

datatype cam = VideoCapture (isOpened: bool)

record state =
  running :: bool
  last_pin :: "string option"
  camera :: "cam option"
  gpio_setup :: bool
  line :: bool
  images :: "string list"
  writers :: "string list"
  videos :: "string list"
  threads :: "thread list"
  trace :: "event list"
  clock :: nat
  world :: world

datatype res = Ok state | Break state | Raise exn state

fun state_of :: "res \<Rightarrow> state" where
  "state_of (Ok s) = s"
| "state_of (Break s) = s"
| "state_of (Raise e s) = s"

type_synonym stmt = "state \<Rightarrow> res"

section \<open>Statements\<close>

definition emit :: "event \<Rightarrow> state \<Rightarrow> state" where
  "emit e s = s\<lparr>trace := trace s @ [e]\<rparr>"

definition assign_running :: "bool \<Rightarrow> state \<Rightarrow> state" where
  "assign_running b s = emit (SetRunning b) (s\<lparr>running := b\<rparr>)"

text \<open>
  The stop branch of \<open>index\<close>:
  \<open>elif action == "stop" and running: running = False; status = ...; logger.info(status)\<close>.
\<close>

definition request_stop :: "state \<Rightarrow> state" where
  "request_stop s =
     (if running s then emit (Log INFO (MsgStatus StatusStopping)) (assign_running False s)
      else s)"

text \<open>
  Before each statement of a thread, another thread may run. The interference taken into
  account is a stop request, handled by the stop branch of \<open>index\<close> at the times the world
  gives; each statement advances the clock by one. A second iteration thread, started by a
  start request while a first one is still alive, sets the flag again; that is not part of
  this interference. The results below that hold for every schedule are therefore results
  for every schedule of stop requests and GPIO failures, about a run that no second
  iteration thread overlaps. What the program does when a start request arrives while a
  loop is alive is evaluated statement by statement, for C3 and for C2.
\<close>

definition interfere :: "state \<Rightarrow> state" where
  "interfere s =
     (let s1 = (if stop_req (world s) (clock s) then request_stop s else s)
      in s1\<lparr>clock := Suc (clock s1)\<rparr>)"

definition atomic :: "(state \<Rightarrow> res) \<Rightarrow> stmt" where
  "atomic f s = f (interfere s)"

definition skip :: stmt where
  "skip s = Ok s"

definition raise :: "exn \<Rightarrow> stmt" where
  "raise e s = Raise e s"

definition seq :: "stmt \<Rightarrow> stmt \<Rightarrow> stmt" where
  "seq f g s = (case f s of Ok s1 \<Rightarrow> g s1 | Break s1 \<Rightarrow> Break s1 | Raise e s1 \<Rightarrow> Raise e s1)"

fun block :: "stmt list \<Rightarrow> stmt" where
  "block [] = skip"
| "block (f # fs) = seq f (block fs)"

definition if_then :: "bool \<Rightarrow> stmt \<Rightarrow> stmt" where
  "if_then b f = (if b then f else skip)"

text \<open>\<open>for x in xs: body\<close>; a \<open>break\<close> in the body ends the loop.\<close>

fun for_each :: "'a list \<Rightarrow> ('a \<Rightarrow> stmt) \<Rightarrow> stmt" where
  "for_each [] body s = Ok s"
| "for_each (x # xs) body s =
     (case body x s of Ok s1 \<Rightarrow> for_each xs body s1
                     | Break s1 \<Rightarrow> Ok s1
                     | Raise e s1 \<Rightarrow> Raise e s1)"

text \<open>\<open>for i in range(lo, hi): body\<close>.\<close>

function for_range :: "nat \<Rightarrow> nat \<Rightarrow> (nat \<Rightarrow> stmt) \<Rightarrow> stmt" where
  "for_range lo hi body s =
     (if lo < hi then
        (case body lo s of Ok s1 \<Rightarrow> for_range (Suc lo) hi body s1
                         | Break s1 \<Rightarrow> Ok s1
                         | Raise e s1 \<Rightarrow> Raise e s1)
      else Ok s)"
  by pat_completeness auto
termination
  by (relation "measure (\<lambda>(lo, hi, body, s). hi - lo)") auto

declare for_range.simps [simp del]

declare block.simps [simp del]

definition try_except :: "stmt \<Rightarrow> (exn \<Rightarrow> stmt) \<Rightarrow> stmt" where
  "try_except body handler s =
     (case body s of Raise e s1 \<Rightarrow> (if is_Exception e then handler e s1 else Raise e s1)
                   | r \<Rightarrow> r)"

text \<open>
  \<open>try: body finally: fin\<close>. The finally block runs on every way out of the body; an
  exception of the body is raised again after it, unless the finally block raises itself.
\<close>

definition try_finally :: "stmt \<Rightarrow> stmt \<Rightarrow> stmt" where
  "try_finally body fin s =
     (case body s of
        Ok s1 \<Rightarrow> fin s1
      | Break s1 \<Rightarrow> (case fin s1 of Ok s2 \<Rightarrow> Break s2 | r \<Rightarrow> r)
      | Raise e s1 \<Rightarrow> (case fin s1 of Ok s2 \<Rightarrow> Raise e s2 | r \<Rightarrow> r))"

definition log :: "level \<Rightarrow> msg \<Rightarrow> stmt" where
  "log l m = atomic (\<lambda>s. Ok (emit (Log l m) s))"

definition sleep :: "nat \<Rightarrow> stmt" where
  "sleep ms = atomic (\<lambda>s. Ok (emit (Sleep ms) s))"

text \<open>
  \<open>GPIO.output(LED_PIN, v)\<close>. RPi.GPIO raises \<open>RuntimeError\<close> when the channel is not set
  up as an output (the setup at import failed, or \<open>GPIO.cleanup()\<close> has run); the world may
  make a single call fail as well.
\<close>

definition gpio_output :: "bool \<Rightarrow> stmt" where
  "gpio_output v = atomic (\<lambda>s.
     if gpio_setup s \<and> \<not> gpio_fault (world s) (clock s)
     then Ok (emit (GpioOut v) (s\<lparr>line := v\<rparr>))
     else Raise RuntimeError s)"

section \<open>PulseEmitter and CodeSender\<close>

definition send_light_pulse :: stmt where
  "send_light_pulse = block [gpio_output True, sleep 200, gpio_output False, sleep 300]"

text \<open>\<open>int(digit_char)\<close> for one character: a decimal digit, or \<open>ValueError\<close>.\<close>

definition int_of_char :: "char \<Rightarrow> nat option" where
  "int_of_char c = map_of (zip ''0123456789'' [0..<10]) c"

definition send_pin :: "string \<Rightarrow> stmt" where
  "send_pin pin_str = block [
     log INFO (MsgPinStart pin_str),
     send_light_pulse,
     sleep 1000,
     for_each (List.enumerate 0 pin_str) (\<lambda>(i, digit_char).
       case int_of_char digit_char of
         None \<Rightarrow> raise ValueError
       | Some target_digit \<Rightarrow> block [
           log INFO (MsgDigit (i + 1) target_digit),
           for_range 0 target_digit (\<lambda>pulse_count. block [send_light_pulse, sleep 100]),
           if_then (i < 3) (block [log INFO MsgWaitDigit, sleep 3100])]),
     log INFO MsgPinDone]"

section \<open>CaptureTask\<close>

text \<open>Decimal digits of a number, as \<open>str\<close> and the \<open>d\<close> format print them.\<close>

definition digit_char :: "nat \<Rightarrow> char" where
  "digit_char d = ''0123456789'' ! d"

function str_nat :: "nat \<Rightarrow> string" where
  "str_nat n = (if n < 10 then [digit_char n] else str_nat (n div 10) @ [digit_char (n mod 10)])"
  by pat_completeness auto
termination
  by (relation "measure id") auto

declare str_nat.simps [simp del]

text \<open>The format \<open>{n:04d}\<close>: at least four digits, padded with zeros on the left.\<close>

definition format_04d :: "nat \<Rightarrow> string" where
  "format_04d n = replicate (4 - length (str_nat n)) (CHR ''0'') @ str_nat n"

text \<open>
  The names of the files, without the directories \<open>image_dir\<close> and \<open>video_dir\<close> that
  \<open>os.path.join\<close> puts in front.
\<close>

definition image_name :: "string \<Rightarrow> nat \<Rightarrow> string" where
  "image_name timestamp img_count = timestamp @ ''_'' @ format_04d img_count @ ''.jpg''"

definition video_name :: "string \<Rightarrow> string" where
  "video_name timestamp = ''session_'' @ timestamp @ ''.avi''"

text \<open>\<open>out = cv2.VideoWriter(video_path, ...)\<close> and \<open>out.release()\<close>.\<close>

definition video_writer :: "string \<Rightarrow> stmt" where
  "video_writer path = atomic (\<lambda>s. Ok (emit (VideoOpen path) (s\<lparr>writers := writers s @ [path]\<rparr>)))"

definition video_release :: "string \<Rightarrow> stmt" where
  "video_release path = atomic (\<lambda>s.
     Ok (emit (VideoRelease path)
          (s\<lparr>writers := removeAll path (writers s), videos := videos s @ [path]\<rparr>)))"

text \<open>The text stamped on a frame, up to the clock time: \<open>f"PIN: {last_pin or '----'} | ..."\<close>.\<close>

definition pin_label :: "string option \<Rightarrow> string" where
  "pin_label p = ''PIN: '' @ (case p of None \<Rightarrow> ''----'' | Some c \<Rightarrow> if c = [] then ''----'' else c)"

text \<open>
  One pass through the body of \<open>while running\<close>. It returns the new value of the local
  \<open>img_count\<close>. \<open>camera.read()\<close> gives no frame when the device is not open.
\<close>

definition capture_tick :: "string \<Rightarrow> string \<Rightarrow> nat \<Rightarrow> state \<Rightarrow> nat \<times> res" where
  "capture_tick timestamp video_path img_count s0 =
     (let s = interfere s0 in
      case camera s of
        None \<Rightarrow> (img_count, Raise AttributeError s)
      | Some c \<Rightarrow>
          (let ret = (isOpened c \<and> frame_ok (world s) (clock s));
               s1 = emit (CamRead ret) s
           in if ret then
                (let img_file = image_name timestamp img_count
                 in (img_count + 1,
                     block [
                       atomic (\<lambda>s. Ok (emit (PutText (pin_label (last_pin s))) s)),
                       atomic (\<lambda>s. Ok (emit (ImWrite img_file) (s\<lparr>images := images s @ [img_file]\<rparr>))),
                       atomic (\<lambda>s. Ok (emit (VideoWrite video_path) s)),
                       log INFO (MsgImageSaved img_file),
                       sleep 3000] s1))
              else (img_count, block [log WARNING MsgNoFrame, sleep 3000] s1)))"

text \<open>
  \<open>while running: ...\<close> runs until the flag is read as false; if no other thread ever
  clears the flag it does not return, and the value is \<open>None\<close>.
\<close>

partial_function (option) capture_loop :: "string \<Rightarrow> string \<Rightarrow> nat \<Rightarrow> state \<Rightarrow> res option" where
  "capture_loop timestamp video_path img_count s0 =
     (let s = interfere s0 in
      if running s then
        (case capture_tick timestamp video_path img_count s of
           (img_count', Ok s1) \<Rightarrow> capture_loop timestamp video_path img_count' s1
         | (img_count', r) \<Rightarrow> Some r)
      else Some (Ok s))"

declare capture_loop.simps [code]

definition record_images_and_video :: "state \<Rightarrow> res option" where
  "record_images_and_video s0 =
     (let s = interfere s0 in
      if camera s = None then Some (log ERROR MsgNoCamera s)
      else
        (let s1 = interfere s;
             timestamp = now_stamp (world s1) (clock s1);
             video_path = video_name timestamp
         in case block [video_writer video_path, log INFO (MsgVideoStart video_path)] s1 of
              Ok s2 \<Rightarrow>
                (case capture_loop timestamp video_path 1 s2 of
                   None \<Rightarrow> None
                 | Some (Ok s3) \<Rightarrow> Some (block [video_release video_path, log INFO MsgVideoEnd] s3)
                 | Some r \<Rightarrow> Some r)
            | r \<Rightarrow> Some r))"

section \<open>AttemptOrchestrator\<close>

definition set_running :: "bool \<Rightarrow> stmt" where
  "set_running b = atomic (\<lambda>s. Ok (assign_running b s))"

definition set_last_pin :: "string \<Rightarrow> stmt" where
  "set_last_pin pin = atomic (\<lambda>s. Ok (emit (SetLastPin pin) (s\<lparr>last_pin := Some pin\<rparr>)))"

text \<open>
  \<open>threading.Thread(target=...).start()\<close> returns once the thread exists; the body of the
  thread runs later, on its own.
\<close>

definition spawn :: "thread \<Rightarrow> state \<Rightarrow> state" where
  "spawn t s = emit (ThreadStart t) (s\<lparr>threads := threads s @ [t]\<rparr>)"

definition thread_start :: "thread \<Rightarrow> stmt" where
  "thread_start t = atomic (\<lambda>s. Ok (spawn t s))"

definition thread_join :: "thread \<Rightarrow> nat \<Rightarrow> stmt" where
  "thread_join t ms = atomic (\<lambda>s. Ok (emit (ThreadJoin t ms) s))"

definition break_loop :: stmt where
  "break_loop s = Break s"

text \<open>\<open>if c: f else: g\<close>, where the test reads the shared state.\<close>

definition cond :: "(state \<Rightarrow> bool) \<Rightarrow> stmt \<Rightarrow> stmt \<Rightarrow> stmt" where
  "cond c f g = atomic (\<lambda>s. if c s then f s else g s)"

definition attempt :: "nat \<Rightarrow> stmt" where
  "attempt i =
     cond (\<lambda>s. \<not> running s)
       (block [log INFO MsgStoppedByUser, break_loop])
       (let pin = format_04d i
        in block [set_last_pin pin, log INFO (MsgTestPin pin), send_pin pin, sleep 3000])"

definition bruteforce_body :: stmt where
  "bruteforce_body = block [log INFO MsgBruteStart, for_range 0 10000 attempt]"

definition bruteforce_try :: stmt where
  "bruteforce_try = try_except bruteforce_body (\<lambda>e. log ERROR (MsgBruteError e))"

definition bruteforce_finally :: stmt where
  "bruteforce_finally =
     block [set_running False, thread_join RecordThread 5000, gpio_output False,
            log INFO MsgBruteDone]"

definition bruteforce_pins :: stmt where
  "bruteforce_pins =
     block [set_running True, thread_start RecordThread,
            try_finally bruteforce_try bruteforce_finally]"

section \<open>Request handlers, camera and shutdown\<close>

text \<open>
  A request handler is short and is taken as one step. Each attempt to open the camera
  advances the clock, so that a later attempt may have another outcome.
\<close>

definition init_camera :: "state \<Rightarrow> bool \<times> state" where
  "init_camera s0 =
     (let s = s0\<lparr>clock := Suc (clock s0)\<rparr> in
      case cam_open (world s) (clock s) of
        OpenRaises \<Rightarrow> (False, emit (Log ERROR MsgCameraInitFailed) s)
      | NotOpened \<Rightarrow>
          (False, emit (Log WARNING MsgCameraNotOpened) (s\<lparr>camera := Some (VideoCapture False)\<rparr>))
      | Opened \<Rightarrow>
          (True, emit (Log INFO MsgCameraInit)
                   (emit (CamSetHeight 480)
                     (emit (CamSetWidth 640) (s\<lparr>camera := Some (VideoCapture True)\<rparr>)))))"

datatype request = GET | POST "string option"

definition start_thread :: "state \<Rightarrow> status option \<times> state" where
  "start_thread s = (Some StatusStarted, emit (Log INFO (MsgStatus StatusStarted)) (spawn BruteforceThread s))"

fun index :: "request \<Rightarrow> state \<Rightarrow> status option \<times> state" where
  "index GET s = (None, s)"
| "index (POST action) s =
     (if action = Some ''start'' \<and> \<not> running s then
        (if camera s = None then
           (case init_camera s of
              (False, s1) \<Rightarrow> (Some StatusCameraFailed, emit (Log ERROR (MsgStatus StatusCameraFailed)) s1)
            | (True, s1) \<Rightarrow> start_thread s1)
         else start_thread s)
      else if action = Some ''stop'' \<and> running s then (Some StatusStopping, request_stop s)
      else (None, s))"


text \<open>A bare \<open>except:\<close> catches every exception.\<close>

definition try_except_all :: "stmt \<Rightarrow> stmt \<Rightarrow> stmt" where
  "try_except_all body handler s = (case body s of Raise e s1 \<Rightarrow> handler s1 | r \<Rightarrow> r)"

definition camera_release :: stmt where
  "camera_release = atomic (\<lambda>s. Ok (emit CamRelease (s\<lparr>camera := Some (VideoCapture False)\<rparr>)))"

definition gpio_cleanup :: stmt where
  "gpio_cleanup = atomic (\<lambda>s. Ok (emit GpioCleanup (s\<lparr>gpio_setup := False\<rparr>)))"

definition cleanup :: stmt where
  "cleanup =
     block [log INFO MsgCleanup,
            set_running False,
            cond (\<lambda>s. camera s \<noteq> None) (block [camera_release, log INFO MsgCameraReleased]) skip,
            try_except_all
              (block [gpio_output False, gpio_cleanup, log INFO MsgGpioCleanupDone])
              skip]"

text \<open>\<open>sys.exit(0)\<close> raises \<open>SystemExit\<close>.\<close>

definition signal_handler :: "nat \<Rightarrow> stmt" where
  "signal_handler signum = block [log INFO (MsgSignal signum), cleanup, raise SystemExit]"

text \<open>
  The \<open>try\<close> statement of the \<open>__main__\<close> block, with what happens inside \<open>app.run\<close> as
  a parameter: it returns, it raises, or a termination signal arrives and \<open>signal_handler\<close>
  runs in it.
\<close>

definition serve :: "stmt \<Rightarrow> stmt" where
  "serve app_run =
     try_finally
       (\<lambda>s. case app_run s of
               Raise KeyboardInterrupt s1 \<Rightarrow> log INFO MsgServiceInterrupted s1
             | Raise e s1 \<Rightarrow> (if is_Exception e then log ERROR MsgServiceError s1 else Raise e s1)
             | r \<Rightarrow> r)
       cleanup"

definition main :: "stmt \<Rightarrow> stmt" where
  "main app_run =
     block [(\<lambda>s. Ok (snd (init_camera s))),
            log INFO MsgServiceStart,
            log INFO MsgServicePort,
            serve app_run]"

text \<open>
  When the interpreter exits it runs the function registered by \<open>atexit.register(cleanup)\<close>,
  whether the program returned or raised.
\<close>

definition at_exit :: "stmt \<Rightarrow> stmt" where
  "at_exit prog s = cleanup (state_of (prog s))"

datatype exit_path = NormalExit | TerminationSignal nat | UnhandledFailure

fun app_run_of :: "exit_path \<Rightarrow> stmt" where
  "app_run_of NormalExit = skip"
| "app_run_of (TerminationSignal signum) = signal_handler signum"
| "app_run_of UnhandledFailure = raise RuntimeError"

text \<open>What runs from the moment the service leaves \<open>app.run\<close> on one of the exit paths.\<close>

definition shutdown :: "exit_path \<Rightarrow> stmt" where
  "shutdown path = at_exit (serve (app_run_of path))"

section \<open>Expected traces, predicates and inputs of the proofs\<close>

text \<open>The events of the GPIO line and of \<open>time.sleep\<close>.\<close>

fun is_phys :: "event \<Rightarrow> bool" where
  "is_phys (GpioOut v) = True"
| "is_phys (Sleep n) = True"
| "is_phys _ = False"

text \<open>
  The value of a digit character, and the events \<open>send_pin\<close> is expected to add: for one
  pulse, for the digit at position \<open>i\<close>, and for a whole code.
\<close>

definition digit_value :: "char \<Rightarrow> nat" where
  "digit_value c = of_char c - of_char (CHR ''0'')"

definition pulse_trace :: "event list" where
  "pulse_trace = [GpioOut True, Sleep 200, GpioOut False, Sleep 300]"

definition digit_trace :: "nat \<Rightarrow> nat \<Rightarrow> event list" where
  "digit_trace i d =
     [Log INFO (MsgDigit (i + 1) d)]
     @ concat (replicate d (pulse_trace @ [Sleep 100]))
     @ (if i < 3 then [Log INFO MsgWaitDigit, Sleep 3100] else [])"

definition send_trace :: "string \<Rightarrow> event list" where
  "send_trace code =
     [Log INFO (MsgPinStart code)] @ pulse_trace @ [Sleep 1000]
     @ concat (map (\<lambda>i. digit_trace i (digit_value (code ! i))) [0..<length code])
     @ [Log INFO MsgPinDone]"

text \<open>
  A statement that returns normally and adds given events; \<open>steady\<close> collects what the
  statements of \<open>send_pin\<close> need of the precondition: a GPIO line that works, and that
  interference, events and writes to the line and to \<open>last_pin\<close> keep it.
\<close>

definition emits :: "(state \<Rightarrow> bool) \<Rightarrow> (state \<Rightarrow> bool) \<Rightarrow> (event \<Rightarrow> bool) \<Rightarrow> stmt \<Rightarrow> event list \<Rightarrow> bool" where
  "emits P Q keep f evs \<longleftrightarrow>
     (\<forall>s. P s \<longrightarrow> (\<exists>s'. f s = Ok s' \<and> Q s' \<and> filter keep (trace s') = filter keep (trace s) @ filter keep evs))"

definition steady :: "(state \<Rightarrow> bool) \<Rightarrow> (event \<Rightarrow> bool) \<Rightarrow> bool" where
  "steady P keep \<longleftrightarrow>
     (\<forall>s. P s \<longrightarrow> gpio_setup s \<and> \<not> gpio_fault (world s) (clock s))
   \<and> (\<forall>s. P s \<longrightarrow> P (interfere s) \<and> filter keep (trace (interfere s)) = filter keep (trace s))
   \<and> (\<forall>s e. P s \<longrightarrow> P (emit e s))
   \<and> (\<forall>s v. P s \<longrightarrow> P (s\<lparr>line := v\<rparr>))
   \<and> (\<forall>s p. P s \<longrightarrow> P (s\<lparr>last_pin := p\<rparr>))"

definition gpio_ok :: "state \<Rightarrow> bool" where
  "gpio_ok s \<longleftrightarrow> gpio_setup s \<and> (\<forall>t. \<not> gpio_fault (world s) t)"

text \<open>
  Inputs: a world without stop requests and failures; the state after the import of the
  module, with the GPIO channel set up; the state after \<open>init_camera()\<close> of the main block;
  a world whose camera does not open; and a state in the middle of a recording.
\<close>

definition calm_world :: world where
  "calm_world = \<lparr>stop_req = (\<lambda>t. False), gpio_fault = (\<lambda>t. False), cam_open = (\<lambda>t. Opened),
                  frame_ok = (\<lambda>t. True), now_stamp = (\<lambda>t. ''20240101_120000'')\<rparr>"

definition boot :: "world \<Rightarrow> state" where
  "boot w = \<lparr>running = False, last_pin = None, camera = None, gpio_setup = True, line = False,
             images = [], writers = [], videos = [], threads = [], trace = [], clock = 0,
             world = w\<rparr>"

definition ready :: state where
  "ready = snd (init_camera (boot calm_world))"


definition recording :: state where
  "recording = state_of (video_writer (video_name ''20240101_120000'') (ready\<lparr>running := True\<rparr>))"

text \<open>
  What \<open>cleanup\<close> establishes, between the state before and the state after.
\<close>

definition released :: "state \<Rightarrow> state \<Rightarrow> bool" where
  "released s s' \<longleftrightarrow>
     \<not> running s' \<and> writers s' = writers s \<and> videos s' = videos s \<and> world s' = world s
     \<and> (case camera s of None \<Rightarrow> camera s' = None | Some c \<Rightarrow> camera s' = Some (VideoCapture False))
     \<and> (\<not> line s \<longrightarrow> \<not> line s')
     \<and> (gpio_setup s \<and> (\<forall>t. \<not> gpio_fault (world s) t) \<longrightarrow> \<not> line s')"

text \<open>
  A postcondition for every outcome of a statement, the events of \<open>send_pin\<close> after its
  first log line, and predicates kept by interference and by events of a given kind.
\<close>

definition hoare :: "(state \<Rightarrow> bool) \<Rightarrow> stmt \<Rightarrow> (state \<Rightarrow> bool) \<Rightarrow> bool" where
  "hoare P f Q \<longleftrightarrow> (\<forall>s. P s \<longrightarrow> Q (state_of (f s)))"

fun is_send_event :: "event \<Rightarrow> bool" where
  "is_send_event (GpioOut v) = True"
| "is_send_event (Sleep n) = True"
| "is_send_event (Log l (MsgDigit i d)) = True"
| "is_send_event (Log l MsgWaitDigit) = True"
| "is_send_event (Log l MsgPinDone) = True"
| "is_send_event _ = False"

definition stable :: "(event \<Rightarrow> bool) \<Rightarrow> (state \<Rightarrow> bool) \<Rightarrow> bool" where
  "stable ok I \<longleftrightarrow>
     (\<forall>s. I s \<longrightarrow> I (interfere s))
   \<and> (\<forall>s e. ok e \<longrightarrow> I s \<longrightarrow> I (emit e s))
   \<and> (\<forall>s v. I s \<longrightarrow> I (s\<lparr>line := v\<rparr>))"

text \<open>
  The start of a transmission is the first log line of \<open>send_pin\<close>. A stop request that
  clears the flag logs its status line; \<open>sends_after_stop\<close> counts the transmissions that
  start after the first such line.
\<close>

fun is_send_start :: "event \<Rightarrow> bool" where
  "is_send_start (Log l (MsgPinStart p)) = True"
| "is_send_start _ = False"

definition stop_log :: event where
  "stop_log = Log INFO (MsgStatus StatusStopping)"

definition after_stop :: "event list \<Rightarrow> event list" where
  "after_stop tr = dropWhile (\<lambda>e. e \<noteq> stop_log) tr"

definition sends_after_stop :: "event list \<Rightarrow> nat" where
  "sends_after_stop tr = length (filter is_send_start (after_stop tr))"

text \<open>
  A state from which nothing disturbs a run, and the events of one attempt and of a whole
  run in that case.
\<close>

definition undisturbed :: "state \<Rightarrow> bool" where
  "undisturbed s \<longleftrightarrow> (\<forall>t. \<not> stop_req (world s) t) \<and> gpio_setup s \<and> (\<forall>t. \<not> gpio_fault (world s) t)"




text \<open>
  The assignments to \<open>last_pin\<close> and the starts of transmissions among the events after
  position \<open>n0\<close> of the trace.
\<close>

fun is_pin_event :: "event \<Rightarrow> bool" where
  "is_pin_event (SetLastPin p) = True"
| "is_pin_event (Log l (MsgPinStart p)) = True"
| "is_pin_event _ = False"



definition no_pin :: "event \<Rightarrow> bool" where
  "no_pin e \<longleftrightarrow> \<not> is_pin_event e"

definition sure :: "stmt \<Rightarrow> bool" where
  "sure f \<longleftrightarrow> (\<forall>s. \<exists>s'. f s = Ok s')"


text \<open>
  The value of \<open>last_pin\<close> after a list of events, and predicates on the events a run has
  added after position \<open>n0\<close>.
\<close>

definition pin_step :: "string option \<Rightarrow> event \<Rightarrow> string option" where
  "pin_step p e = (case e of SetLastPin c \<Rightarrow> Some c | _ \<Rightarrow> p)"

definition pin_after :: "string option \<Rightarrow> event list \<Rightarrow> string option" where
  "pin_after p evs = foldl pin_step p evs"


definition joined :: "nat \<Rightarrow> state \<Rightarrow> bool" where
  "joined n0 s \<longleftrightarrow> n0 \<le> length (trace s) \<and> \<not> running s
     \<and> ThreadJoin RecordThread 5000 \<in> set (drop n0 (trace s))"

definition grown :: "nat \<Rightarrow> state \<Rightarrow> bool" where
  "grown n0 s \<longleftrightarrow> n0 \<le> length (trace s)"




definition glitch_world :: world where
  "glitch_world = calm_world\<lparr>gpio_fault := (\<lambda>t. t = 8)\<rparr>"

definition glitch_entry :: state where
  "glitch_entry = state_of (block [set_running True, thread_start RecordThread] (boot glitch_world))"

definition glitch_raised :: state where
  "glitch_raised = state_of (bruteforce_body glitch_entry)"

definition no_gpio_state :: state where
  "no_gpio_state = (boot calm_world)\<lparr>gpio_setup := False\<rparr>"

text \<open>
  Inputs for a stop request followed by a start request. The service has started with the
  camera open and a start request has been accepted; the iteration thread has set the
  flag, started the recording thread and logged its start. Then the stop request is
  handled, then a second start request, then the first statement of the second iteration
  thread, which sets the flag again.
\<close>

definition loop_started :: state where
  "loop_started =
     state_of (block [set_running True, thread_start RecordThread, log INFO MsgBruteStart]
                 (snd (index (POST (Some ''start'')) ready)))"

definition stop_handled :: state where
  "stop_handled = snd (index (POST (Some ''stop'')) loop_started)"

definition restart_handled :: state where
  "restart_handled = snd (index (POST (Some ''start'')) stop_handled)"

definition flag_set_again :: state where
  "flag_set_again = state_of (set_running True restart_handled)"




fun raised :: "res \<Rightarrow> exn option" where
  "raised (Raise e s) = Some e"
| "raised _ = None"

fun is_Ok :: "res \<Rightarrow> bool" where
  "is_Ok (Ok s) = True"
| "is_Ok _ = False"

text \<open>
  For the recording: the number of frames read successfully since position \<open>n0\<close>, a
  flag that is cleared at time \<open>t\<close> at the latest, and a recording whose first read fails.
\<close>

definition frames_ok :: "nat \<Rightarrow> state \<Rightarrow> nat" where
  "frames_ok n0 s = length (filter (\<lambda>e. e = CamRead True) (drop n0 (trace s)))"

definition cleared_by :: "nat \<Rightarrow> state \<Rightarrow> bool" where
  "cleared_by t s \<longleftrightarrow> stop_req (world s) t \<and> (clock s \<le> t \<or> \<not> running s)"

fun is_cam_read :: "event \<Rightarrow> bool" where
  "is_cam_read (CamRead ok) = True"
| "is_cam_read _ = False"

definition flicker_world :: world where
  "flicker_world = calm_world\<lparr>frame_ok := (\<lambda>t. t \<noteq> 7), stop_req := (\<lambda>t. t = 16)\<rparr>"

definition flicker_state :: state where
  "flicker_state = (snd (init_camera (boot flicker_world)))\<lparr>running := True\<rparr>"

definition capture_summary :: "res option \<Rightarrow> (string list \<times> event list \<times> string list \<times> string list) option" where
  "capture_summary r =
     map_option (\<lambda>x. (images (state_of x), filter is_cam_read (trace (state_of x)),
                        videos (state_of x), writers (state_of x))) r"

definition same_devices :: "state \<Rightarrow> state \<Rightarrow> bool" where
  "same_devices s s' \<longleftrightarrow>
     world s' = world s \<and> camera s' = camera s \<and> writers s' = writers s \<and> videos s' = videos s"

text \<open>
  The number of occurrences of an event after position \<open>n0\<close> of the trace; a trace that
  has, after \<open>n0\<close>, as many warnings about a missing frame as failed reads; and, for a
  recording with a camera that is not open, one that has no successful read either.
\<close>

definition count_event :: "event \<Rightarrow> nat \<Rightarrow> state \<Rightarrow> nat" where
  "count_event e n0 s = length (filter (\<lambda>x. x = e) (drop n0 (trace s)))"

definition logged :: "nat \<Rightarrow> state \<Rightarrow> bool" where
  "logged n0 s \<longleftrightarrow>
     n0 \<le> length (trace s)
   \<and> count_event (Log WARNING MsgNoFrame) n0 s = count_event (CamRead False) n0 s"

definition dark :: "nat \<Rightarrow> state \<Rightarrow> bool" where
  "dark n0 s \<longleftrightarrow>
     n0 \<le> length (trace s)
   \<and> count_event (CamRead True) n0 s = 0
   \<and> count_event (Log WARNING MsgNoFrame) n0 s = count_event (CamRead False) n0 s"

section \<open>Verification\<close>



subsection \<open>Statements that return: the events they add\<close>

text \<open>
  \<open>emits P Q keep f evs\<close>: from a state in \<open>P\<close> the statement returns normally, in a state
  in \<open>Q\<close>, and the events it has added are \<open>evs\<close>, as far as \<open>keep\<close> selects them.
\<close>

lemma emits_cong: "emits P Q keep f evs \<Longrightarrow> filter keep evs = filter keep evs' \<Longrightarrow> emits P Q keep f evs'"
  by (simp add: emits_def)

lemma emits_skip: "emits P P keep skip []"
  by (simp add: emits_def skip_def)

lemma emits_seq:
  assumes "emits P Q keep f a" and "emits Q R keep g b"
  shows "emits P R keep (seq f g) (a @ b)"
  unfolding emits_def
proof (intro allI impI)
  fix s assume "P s"
  with assms(1) obtain s1 where 1: "f s = Ok s1" "Q s1"
    "filter keep (trace s1) = filter keep (trace s) @ filter keep a"
    unfolding emits_def by blast
  with assms(2) obtain s2 where 2: "g s1 = Ok s2" "R s2"
    "filter keep (trace s2) = filter keep (trace s1) @ filter keep b"
    unfolding emits_def by blast
  show "\<exists>s'. seq f g s = Ok s' \<and> R s' \<and>
         filter keep (trace s') = filter keep (trace s) @ filter keep (a @ b)"
    using 1 2 by (simp add: seq_def)
qed

lemma emits_block_Nil: "emits P P keep (block []) []"
  by (simp add: emits_skip block.simps)

lemma emits_block_Cons:
  "emits P Q keep f a \<Longrightarrow> emits Q R keep (block fs) b \<Longrightarrow> emits P R keep (block (f # fs)) (a @ b)"
  by (simp add: emits_seq block.simps)

lemma emits_block_same:
  "emits P P keep f a \<Longrightarrow> emits P P keep (block fs) b \<Longrightarrow> emits P P keep (block (f # fs)) (a @ b)"
  by (rule emits_block_Cons)

lemma emits_if_then:
  "(b \<Longrightarrow> emits P P keep f a) \<Longrightarrow> emits P P keep (if_then b f) (if b then a else [])"
  by (simp add: if_then_def emits_skip)

lemma emits_for_each:
  "(\<And>x. x \<in> set xs \<Longrightarrow> emits P P keep (body x) (g x)) \<Longrightarrow>
   emits P P keep (for_each xs body) (concat (map g xs))"
proof (induction xs)
  case Nil
  show ?case by (simp add: emits_def)
next
  case (Cons x xs)
  have hx: "emits P P keep (body x) (g x)" using Cons.prems by simp
  have hxs: "emits P P keep (for_each xs body) (concat (map g xs))" using Cons by simp
  show ?case
    unfolding emits_def
  proof (intro allI impI)
    fix s assume "P s"
    then obtain s1 where 1: "body x s = Ok s1" "P s1"
        "filter keep (trace s1) = filter keep (trace s) @ filter keep (g x)"
      using hx unfolding emits_def by blast
    then obtain s2 where 2: "for_each xs body s1 = Ok s2" "P s2"
       "filter keep (trace s2) = filter keep (trace s1) @ filter keep (concat (map g xs))"
      using hxs unfolding emits_def by blast
    show "\<exists>s'. for_each (x # xs) body s = Ok s' \<and> P s' \<and>
        filter keep (trace s') = filter keep (trace s) @ filter keep (concat (map g (x # xs)))"
      using 1 2 by simp
  qed
qed

lemma emits_for_range:
  "(\<And>i. lo \<le> i \<Longrightarrow> i < hi \<Longrightarrow> emits P P keep (body i) (g i)) \<Longrightarrow>
   emits P P keep (for_range lo hi body) (concat (map g [lo..<hi]))"
proof (induction "hi - lo" arbitrary: lo)
  case 0
  then show ?case by (simp add: emits_def for_range.simps)
next
  case (Suc n)
  then have lt: "lo < hi" by simp
  have hx: "emits P P keep (body lo) (g lo)" using Suc.prems lt by simp
  have hxs: "emits P P keep (for_range (Suc lo) hi body) (concat (map g [Suc lo..<hi]))"
    using Suc by simp
  show ?case
    unfolding emits_def
  proof (intro allI impI)
    fix s assume "P s"
    then obtain s1 where 1: "body lo s = Ok s1" "P s1"
        "filter keep (trace s1) = filter keep (trace s) @ filter keep (g lo)"
      using hx unfolding emits_def by blast
    then obtain s2 where 2: "for_range (Suc lo) hi body s1 = Ok s2" "P s2"
       "filter keep (trace s2) = filter keep (trace s1) @ filter keep (concat (map g [Suc lo..<hi]))"
      using hxs unfolding emits_def by blast
    show "\<exists>s'. for_range lo hi body s = Ok s' \<and> P s' \<and>
        filter keep (trace s') = filter keep (trace s) @ filter keep (concat (map g [lo..<hi]))"
      using 1 2 lt by (simp add: for_range.simps[of lo] upt_conv_Cons)
  qed
qed

lemma trace_emit [simp]: "trace (emit e s) = trace s @ [e]"
  by (simp add: emit_def)

lemma emits_atomic:
  assumes st: "steady P keep"
    and f: "\<And>s. P s \<Longrightarrow> \<exists>s'. f s = Ok s' \<and> Q s' \<and> filter keep (trace s') = filter keep (trace s) @ filter keep evs"
  shows "emits P Q keep (atomic f) evs"
  unfolding emits_def atomic_def
proof (intro allI impI)
  fix s assume "P s"
  then have i: "P (interfere s)" "filter keep (trace (interfere s)) = filter keep (trace s)"
    using st unfolding steady_def by blast+
  from f[OF i(1)] i(2)
  show "\<exists>s'. f (interfere s) = Ok s' \<and> Q s' \<and> filter keep (trace s') = filter keep (trace s) @ filter keep evs"
    by simp
qed

lemma steady_emit: "steady P keep \<Longrightarrow> P s \<Longrightarrow> P (emit e s)"
  unfolding steady_def by blast

lemma steady_line: "steady P keep \<Longrightarrow> P s \<Longrightarrow> P (s\<lparr>line := v\<rparr>)"
  unfolding steady_def by blast


lemma steady_gpio: "steady P keep \<Longrightarrow> P s \<Longrightarrow> gpio_setup s \<and> \<not> gpio_fault (world s) (clock s)"
  unfolding steady_def by blast

lemma emits_log: "steady P keep \<Longrightarrow> emits P P keep (log l m) [Log l m]"
  unfolding log_def by (rule emits_atomic) (simp_all add: steady_emit)

lemma emits_sleep: "steady P keep \<Longrightarrow> emits P P keep (sleep n) [Sleep n]"
  unfolding sleep_def by (rule emits_atomic) (simp_all add: steady_emit)

lemma emits_gpio_output: "steady P keep \<Longrightarrow> emits P P keep (gpio_output v) [GpioOut v]"
  unfolding gpio_output_def
  by (rule emits_atomic) (simp_all add: steady_emit steady_line steady_gpio)


lemma emits_pulse:
  assumes "steady P keep"
  shows "emits P P keep send_light_pulse pulse_trace"
proof -
  have "emits P P keep send_light_pulse
          ([GpioOut True] @ [Sleep 200] @ [GpioOut False] @ [Sleep 300] @ [])"
    unfolding send_light_pulse_def
    by (intro emits_block_same emits_block_Nil emits_gpio_output emits_sleep assms)
  then show ?thesis by (simp add: pulse_trace_def)
qed

lemma int_of_char_digit:
  "c \<in> set ''0123456789'' \<Longrightarrow> int_of_char c = Some (digit_value c)"
  by (auto simp: int_of_char_def digit_value_def upt_conv_Cons)

lemma emits_digit:
  assumes st: "steady P keep" and c: "c \<in> set ''0123456789''"
  shows "emits P P keep
     (case int_of_char c of
         None \<Rightarrow> raise ValueError
       | Some target_digit \<Rightarrow> block [
           log INFO (MsgDigit (i + 1) target_digit),
           for_range 0 target_digit (\<lambda>pulse_count. block [send_light_pulse, sleep 100]),
           if_then (i < 3) (block [log INFO MsgWaitDigit, sleep 3100])])
     (digit_trace i (digit_value c))"
proof -
  let ?d = "digit_value c"
  let ?p = "pulse_trace @ [Sleep 100]"
  have "emits P P keep (block [send_light_pulse, sleep 100]) (pulse_trace @ [Sleep 100] @ [])"
    by (intro emits_block_same emits_block_Nil emits_pulse emits_sleep st)
  then have one: "emits P P keep (block [send_light_pulse, sleep 100]) ?p"
    by simp
  have loop: "emits P P keep (for_range 0 ?d (\<lambda>pulse_count. block [send_light_pulse, sleep 100]))
       (concat (map (\<lambda>_. ?p) [0..<?d]))"
    using one by (intro emits_for_range) simp
  have wait: "i < 3 \<Longrightarrow> emits P P keep (block [log INFO MsgWaitDigit, sleep 3100])
                 ([Log INFO MsgWaitDigit] @ [Sleep 3100] @ [])"
    by (intro emits_block_same emits_block_Nil emits_log emits_sleep st)
  have body: "emits P P keep
     (block [log INFO (MsgDigit (i + 1) ?d),
           for_range 0 ?d (\<lambda>pulse_count. block [send_light_pulse, sleep 100]),
           if_then (i < 3) (block [log INFO MsgWaitDigit, sleep 3100])])
     ([Log INFO (MsgDigit (i + 1) ?d)] @ concat (map (\<lambda>_. ?p) [0..<?d])
        @ (if i < 3 then [Log INFO MsgWaitDigit] @ [Sleep 3100] @ [] else []) @ [])"
    by (intro emits_block_same emits_block_Nil emits_log loop emits_if_then wait st)
  show ?thesis
    unfolding int_of_char_digit[OF c] option.case
    by (rule emits_cong[OF body]) (simp add: map_replicate_const digit_trace_def)
qed

lemma map_enumerate: "map g (List.enumerate 0 xs) = map (\<lambda>i. g (i, xs ! i)) [0..<length xs]"
  by (rule nth_equalityI) (simp_all add: nth_enumerate_eq)

lemma emits_send_pin:
  assumes st: "steady P keep" and code: "set code \<subseteq> set ''0123456789''"
  shows "emits P P keep (send_pin code) (send_trace code)"
proof -
  let ?g = "\<lambda>(i, c). digit_trace i (digit_value c)"
  have digits: "emits P P keep
     (for_each (List.enumerate 0 code) (\<lambda>(i, digit_char).
       case int_of_char digit_char of
         None \<Rightarrow> raise ValueError
       | Some target_digit \<Rightarrow> block [
           log INFO (MsgDigit (i + 1) target_digit),
           for_range 0 target_digit (\<lambda>pulse_count. block [send_light_pulse, sleep 100]),
           if_then (i < 3) (block [log INFO MsgWaitDigit, sleep 3100])]))
     (concat (map ?g (List.enumerate 0 code)))"
  proof (rule emits_for_each)
    fix x assume "x \<in> set (List.enumerate 0 code)"
    then have "snd x \<in> set code"
      using set_zip_rightD[of "fst x" "snd x"] by (simp add: enumerate_eq_zip)
    then have "snd x \<in> set ''0123456789''" using code by blast
    from emits_digit[OF st this, of "fst x"]
    show "emits P P keep
        ((\<lambda>(i, digit_char).
       case int_of_char digit_char of
         None \<Rightarrow> raise ValueError
       | Some target_digit \<Rightarrow> block [
           log INFO (MsgDigit (i + 1) target_digit),
           for_range 0 target_digit (\<lambda>pulse_count. block [send_light_pulse, sleep 100]),
           if_then (i < 3) (block [log INFO MsgWaitDigit, sleep 3100])]) x) (?g x)"
      by (simp add: case_prod_beta)
  qed
  have all: "emits P P keep (send_pin code)
     ([Log INFO (MsgPinStart code)] @ pulse_trace @ [Sleep 1000]
        @ concat (map ?g (List.enumerate 0 code)) @ [Log INFO MsgPinDone] @ [])"
    unfolding send_pin_def
    by (intro emits_block_same emits_block_Nil emits_log emits_pulse emits_sleep digits st)
  show ?thesis
    by (rule emits_cong[OF all]) (simp add: map_enumerate send_trace_def)
qed

lemma steady_gpio_ok: "steady gpio_ok is_phys"
  by (simp add: steady_def gpio_ok_def interfere_def request_stop_def assign_running_def emit_def Let_def)

lemma phys_send_trace:
  "filter is_phys (send_trace code) =
     [GpioOut True, Sleep 200, GpioOut False, Sleep 300] @ [Sleep 1000]
       @ concat (map (\<lambda>i.
           concat (replicate (digit_value (code ! i))
                     ([GpioOut True, Sleep 200, GpioOut False, Sleep 300] @ [Sleep 100]))
           @ (if i < 3 then [Sleep 3100] else []))
          [0..<length code])"
  by (simp add: send_trace_def pulse_trace_def digit_trace_def filter_concat comp_def
        if_distrib[of "filter is_phys"] cong: if_cong)

subsection \<open>C1: the pulse sequence of a code\<close>

text \<open>
  Claim C1. For a code of four decimal digits and a GPIO line that works, \<open>send_pin\<close>
  returns, and what it does to the line and the clock is, in this order: one pulse (high,
  200 ms, low, 300 ms), a pause of 1000 ms, then for each position \<open>i = 0..3\<close> as many
  pulses as the digit says, each followed by 100 ms, and 3100 ms after the digit exactly
  when \<open>i < 3\<close>. Stop requests of other threads do not change this sequence.
\<close>

theorem send_pin_pulse_sequence:
  assumes "length code = 4" and "set code \<subseteq> set ''0123456789''"
    and "gpio_setup s" and "\<forall>t. \<not> gpio_fault (world s) t"
  shows "\<exists>s'. send_pin code s = Ok s' \<and>
     filter is_phys (trace s') =
       filter is_phys (trace s)
       @ [GpioOut True, Sleep 200, GpioOut False, Sleep 300] @ [Sleep 1000]
       @ concat (map (\<lambda>i.
           concat (replicate (digit_value (code ! i))
                     ([GpioOut True, Sleep 200, GpioOut False, Sleep 300] @ [Sleep 100]))
           @ (if i < 3 then [Sleep 3100] else []))
          [0..<4])"
proof -
  have "gpio_ok s" using assms(3,4) by (simp add: gpio_ok_def)
  with emits_send_pin[OF steady_gpio_ok assms(2)]
  obtain s' where "send_pin code s = Ok s'"
    "filter is_phys (trace s') = filter is_phys (trace s) @ filter is_phys (send_trace code)"
    unfolding emits_def by blast
  then show ?thesis
    using assms(1) by (simp only: phys_send_trace) simp
qed

theorem send_pin_pulse_sequence_witness:
  "length ''0102'' = 4 \<and> set ''0102'' \<subseteq> set ''0123456789''
   \<and> gpio_setup (boot calm_world) \<and> (\<forall>t. \<not> gpio_fault (world (boot calm_world)) t)
   \<and> (\<exists>s'. send_pin ''0102'' (boot calm_world) = Ok s' \<and>
         filter is_phys (trace s') =
           [GpioOut True, Sleep 200, GpioOut False, Sleep 300, Sleep 1000,
            Sleep 3100,
            GpioOut True, Sleep 200, GpioOut False, Sleep 300, Sleep 100, Sleep 3100,
            Sleep 3100,
            GpioOut True, Sleep 200, GpioOut False, Sleep 300, Sleep 100,
            GpioOut True, Sleep 200, GpioOut False, Sleep 300, Sleep 100])"
  using send_pin_pulse_sequence [of "''0102''" "boot calm_world"]
  by (simp add: boot_def calm_world_def digit_value_def upt_conv_Cons numeral_2_eq_2)

subsection \<open>C3: two start requests\<close>

lemma start_rejected_while_running:
  "running s \<Longrightarrow> index (POST (Some ''start'')) s = (None, s)"
  by simp

text \<open>
  Claim C3. The guard of \<open>index\<close> reads \<open>running\<close>, but the flag is set by the first
  statement of the started thread, not by the handler. Two start requests handled before
  the first thread has run that statement are both accepted, and two iteration threads are
  started: here from the state the service has after its start, with the camera open.
\<close>

theorem double_start_spawns_two_threads:
  "fst (index (POST (Some ''start'')) ready) = Some StatusStarted
   \<and> \<not> running (snd (index (POST (Some ''start'')) ready))
   \<and> fst (index (POST (Some ''start'')) (snd (index (POST (Some ''start'')) ready))) = Some StatusStarted
   \<and> threads (snd (index (POST (Some ''start'')) (snd (index (POST (Some ''start'')) ready))))
       = [BruteforceThread, BruteforceThread]"
  by (simp add: ready_def init_camera_def boot_def calm_world_def start_thread_def spawn_def emit_def)

subsection \<open>C8: the names of the images\<close>

lemma str_nat_9999: "str_nat 9999 = ''9999''"
  by (simp add: str_nat.simps digit_char_def)

lemma str_nat_10000: "str_nat 10000 = ''10000''"
  by (simp add: str_nat.simps digit_char_def)

text \<open>
  Claim C8. The counter is printed with \<open>04d\<close>, so the name of the 10000th image of a run
  has one digit more than the name of the 9999th and sorts before it.
\<close>

theorem image_name_order_breaks:
  "image_name timestamp 10000 < image_name timestamp 9999"
  by (simp add: image_name_def format_04d_def str_nat_9999 str_nat_10000 list_less_def
      lexord_same_pref_iff)

subsection \<open>C9: shutdown\<close>

lemmas prim_defs = log_def sleep_def gpio_output_def set_running_def set_last_pin_def
  thread_start_def thread_join_def camera_release_def gpio_cleanup_def video_writer_def
  video_release_def cond_def atomic_def skip_def raise_def break_loop_def

lemma interfere_fields [simp]:
  "writers (interfere s) = writers s" "videos (interfere s) = videos s"
  "images (interfere s) = images s" "camera (interfere s) = camera s"
  "world (interfere s) = world s" "gpio_setup (interfere s) = gpio_setup s"
  "line (interfere s) = line s" "last_pin (interfere s) = last_pin s"
  "threads (interfere s) = threads s" "clock (interfere s) = Suc (clock s)"
  by (simp_all add: interfere_def request_stop_def assign_running_def emit_def Let_def)

lemma interfere_running: "\<not> running s \<Longrightarrow> \<not> running (interfere s)"
  by (simp add: interfere_def request_stop_def assign_running_def emit_def Let_def)

lemma interfere_trace_mono: "e \<in> set (trace s) \<Longrightarrow> e \<in> set (trace (interfere s))"
  by (simp add: interfere_def request_stop_def assign_running_def emit_def Let_def)

lemma interfere_trace_length: "length (trace s) \<le> length (trace (interfere s))"
  by (simp add: interfere_def request_stop_def assign_running_def emit_def Let_def)

lemma emit_fields [simp]:
  "running (emit e s) = running s" "writers (emit e s) = writers s" "videos (emit e s) = videos s"
  "images (emit e s) = images s" "camera (emit e s) = camera s"
  "world (emit e s) = world s" "gpio_setup (emit e s) = gpio_setup s"
  "line (emit e s) = line s" "last_pin (emit e s) = last_pin s"
  "threads (emit e s) = threads s" "clock (emit e s) = clock s"
  by (simp_all add: emit_def)

lemma cleanup_effect:
  "\<exists>s'. cleanup s = Ok s' \<and> released s s'"
  unfolding cleanup_def block.simps seq_def prim_defs try_except_all_def released_def
  by (cases "camera s") (auto simp: interfere_running assign_running_def split: res.splits)

lemma released_trans: "released a b \<Longrightarrow> released b c \<Longrightarrow> released a c"
  by (auto simp: released_def split: option.splits)

lemma released_after_log: "released (emit e (interfere s)) s' \<Longrightarrow> released s s'"
  by (auto simp: released_def split: option.splits)

lemma serve_effect: "released s (state_of (serve (app_run_of path) s))"
proof (cases path)
  case NormalExit
  obtain s1 where "cleanup s = Ok s1" "released s s1" using cleanup_effect by blast
  then show ?thesis using NormalExit by (simp add: serve_def try_finally_def skip_def)
next
  case (TerminationSignal n)
  let ?s1 = "emit (Log INFO (MsgSignal n)) (interfere s)"
  obtain s2 where 2: "cleanup ?s1 = Ok s2" "released ?s1 s2" using cleanup_effect by blast
  obtain s3 where 3: "cleanup s2 = Ok s3" "released s2 s3" using cleanup_effect by blast
  have "signal_handler n s = Raise SystemExit s2"
    using 2 by (simp add: signal_handler_def block.simps seq_def log_def atomic_def raise_def)
  then have "state_of (serve (app_run_of path) s) = s3"
    using 3 TerminationSignal by (simp add: serve_def try_finally_def)
  then show ?thesis using 2 3 released_trans released_after_log by metis
next
  case UnhandledFailure
  let ?s1 = "emit (Log ERROR MsgServiceError) (interfere s)"
  obtain s2 where 2: "cleanup ?s1 = Ok s2" "released ?s1 s2" using cleanup_effect by blast
  have "state_of (serve (app_run_of path) s) = s2"
    using 2 UnhandledFailure by (simp add: serve_def try_finally_def raise_def log_def atomic_def)
  then show ?thesis using 2 released_after_log by metis
qed

lemma shutdown_released: "\<exists>s'. shutdown path s = Ok s' \<and> released s s'"
proof -
  obtain s' where "cleanup (state_of (serve (app_run_of path) s)) = Ok s'"
     "released (state_of (serve (app_run_of path) s)) s'"
    using cleanup_effect by blast
  then show ?thesis
    using serve_effect[of s path] released_trans by (auto simp: shutdown_def at_exit_def)
qed

text \<open>
  Claim C9, as the program has it. On each exit path (return of \<open>app.run\<close>, termination
  signal, failure of \<open>app.run\<close>) the shutdown ends with the flag cleared, the camera
  released if there is one, and the line low if the GPIO driver works. An open video
  writer is not touched: it belongs to the recording thread, which is only told to stop
  through the flag.
\<close>

theorem shutdown_effect:
  "\<exists>s'. shutdown path s = Ok s' \<and> \<not> running s'
     \<and> (camera s \<noteq> None \<longrightarrow> camera s' = Some (VideoCapture False))
     \<and> (gpio_setup s \<and> (\<forall>t. \<not> gpio_fault (world s) t) \<longrightarrow> \<not> line s')
     \<and> writers s' = writers s \<and> videos s' = videos s"
  using shutdown_released[of path s] by (auto simp: released_def split: option.splits)

lemma recording_fields:
  "camera recording = Some (VideoCapture True)" "gpio_setup recording"
  "world recording = calm_world" "writers recording = [''session_20240101_120000.avi'']"
  "videos recording = []" "running recording"
  by (simp_all add: recording_def ready_def init_camera_def boot_def calm_world_def
      video_writer_def atomic_def video_name_def interfere_def Let_def emit_def)

theorem shutdown_effect_witness:
  "camera recording \<noteq> None \<and> gpio_setup recording \<and> (\<forall>t. \<not> gpio_fault (world recording) t)
   \<and> (\<exists>s'. shutdown (TerminationSignal 15) recording = Ok s' \<and> \<not> running s'
        \<and> camera s' = Some (VideoCapture False) \<and> \<not> line s'
        \<and> writers s' = [''session_20240101_120000.avi''] \<and> videos s' = [])"
  using shutdown_effect [of "TerminationSignal 15" recording]
  by (simp add: recording_fields calm_world_def)

text \<open>
  Claim C9 as stated fails: after the shutdown on a termination signal in the middle of a
  recording, the video writer opened by the recording thread is still open and no video
  has been finalized.
\<close>

theorem shutdown_leaves_video_open:
  "running recording
   \<and> writers recording = [''session_20240101_120000.avi'']
   \<and> writers (state_of (shutdown (TerminationSignal 15) recording)) = [''session_20240101_120000.avi'']
   \<and> videos (state_of (shutdown (TerminationSignal 15) recording)) = []"
  using shutdown_released [of "TerminationSignal 15" recording]
  by (auto simp: recording_fields released_def)

subsection \<open>Invariants of statements, whatever their outcome\<close>

text \<open>
  \<open>hoare P f Q\<close>: from a state in \<open>P\<close> the state in which the statement ends, whether it
  returns, breaks out of a loop or raises, is in \<open>Q\<close>. A predicate is \<open>stable\<close> when the
  interference of other threads, the events of a given kind and a write to the line keep it.
\<close>

lemma hoareI: "(\<And>s. P s \<Longrightarrow> Q (state_of (f s))) \<Longrightarrow> hoare P f Q"
  by (simp add: hoare_def)

lemma hoareD: "hoare P f Q \<Longrightarrow> P s \<Longrightarrow> Q (state_of (f s))"
  by (simp add: hoare_def)

lemma hoare_weaken:
  "hoare P f Q \<Longrightarrow> (\<And>s. P' s \<Longrightarrow> P s) \<Longrightarrow> (\<And>s. Q s \<Longrightarrow> Q' s) \<Longrightarrow> hoare P' f Q'"
  by (simp add: hoare_def)

lemma hoare_skip: "hoare I skip I"
  by (simp add: hoare_def skip_def)

lemma hoare_raise: "hoare I (raise e) I"
  by (simp add: hoare_def raise_def)

lemma hoare_break: "hoare I break_loop I"
  by (simp add: hoare_def break_loop_def)

lemma hoare_seq:
  assumes "hoare P f R" and "hoare R g Q" and "\<And>s. R s \<Longrightarrow> Q s"
  shows "hoare P (seq f g) Q"
proof (rule hoareI)
  fix s assume "P s"
  then have r: "R (state_of (f s))" using assms(1) by (simp add: hoare_def)
  show "Q (state_of (seq f g s))"
  proof (cases "f s")
    case (Ok s1)
    then show ?thesis using r hoareD[OF assms(2), of s1] by (simp add: seq_def)
  next
    case (Break s1)
    then show ?thesis using r assms(3) by (simp add: seq_def)
  next
    case (Raise e s1)
    then show ?thesis using r assms(3) by (simp add: seq_def)
  qed
qed

lemma hoare_block_Nil: "hoare I (block []) I"
  by (simp add: block.simps hoare_skip)

lemma hoare_block_Cons:
  "hoare I f I \<Longrightarrow> hoare I (block fs) I \<Longrightarrow> hoare I (block (f # fs)) I"
  by (simp add: block.simps hoare_seq)

lemma hoare_block_step:
  "hoare P f R \<Longrightarrow> hoare R (block fs) Q \<Longrightarrow> (\<And>s. R s \<Longrightarrow> Q s) \<Longrightarrow> hoare P (block (f # fs)) Q"
  by (simp add: block.simps hoare_seq)

lemma hoare_if_then: "(b \<Longrightarrow> hoare I f I) \<Longrightarrow> hoare I (if_then b f) I"
  by (simp add: if_then_def hoare_skip)

lemma hoare_for_each:
  assumes "\<And>x. x \<in> set xs \<Longrightarrow> hoare I (body x) I"
  shows "hoare I (for_each xs body) I"
  using assms
proof (induction xs)
  case Nil
  show ?case by (simp add: hoare_def)
next
  case (Cons x xs)
  have hx: "hoare I (body x) I" using Cons.prems by simp
  have hxs: "hoare I (for_each xs body) I" using Cons by simp
  show ?case
  proof (rule hoareI)
    fix s assume "I s"
    then have r: "I (state_of (body x s))" using hx by (simp add: hoare_def)
    show "I (state_of (for_each (x # xs) body s))"
      using r hoareD[OF hxs] by (cases "body x s") simp_all
  qed
qed

lemma hoare_for_range:
  assumes "\<And>i. lo \<le> i \<Longrightarrow> i < hi \<Longrightarrow> hoare I (body i) I"
  shows "hoare I (for_range lo hi body) I"
  using assms
proof (induction "hi - lo" arbitrary: lo)
  case 0
  then show ?case by (simp add: hoare_def for_range.simps)
next
  case (Suc n)
  then have lt: "lo < hi" by simp
  have hx: "hoare I (body lo) I" using Suc.prems lt by simp
  have hxs: "hoare I (for_range (Suc lo) hi body) I" using Suc by simp
  show ?case
  proof (rule hoareI)
    fix s assume "I s"
    then have r: "I (state_of (body lo s))" using hx by (simp add: hoare_def)
    show "I (state_of (for_range lo hi body s))"
      using r hoareD[OF hxs] lt by (cases "body lo s") (simp_all add: for_range.simps[of lo])
  qed
qed

lemma hoare_try_except:
  assumes "hoare P body R" and "\<And>e. hoare R (handler e) Q" and "\<And>s. R s \<Longrightarrow> Q s"
  shows "hoare P (try_except body handler) Q"
proof (rule hoareI)
  fix s assume "P s"
  then have r: "R (state_of (body s))" using assms(1) by (simp add: hoare_def)
  show "Q (state_of (try_except body handler s))"
    using r assms(3) hoareD[OF assms(2)]
    by (cases "body s") (simp_all add: try_except_def)
qed

lemma hoare_try_finally:
  assumes "hoare P body R" and "hoare R fin Q"
  shows "hoare P (try_finally body fin) Q"
proof (rule hoareI)
  fix s assume "P s"
  then have r: "R (state_of (body s))" using assms(1) by (simp add: hoare_def)
  show "Q (state_of (try_finally body fin s))"
  proof (cases "body s")
    case (Ok s1)
    then show ?thesis using r hoareD[OF assms(2), of s1] by (simp add: try_finally_def)
  next
    case (Break s1)
    then show ?thesis using r hoareD[OF assms(2), of s1]
      by (cases "fin s1") (simp_all add: try_finally_def)
  next
    case (Raise e s1)
    then show ?thesis using r hoareD[OF assms(2), of s1]
      by (cases "fin s1") (simp_all add: try_finally_def)
  qed
qed

lemma hoare_atomic:
  "(\<And>s. P s \<Longrightarrow> R (interfere s)) \<Longrightarrow> (\<And>s. R s \<Longrightarrow> Q (state_of (f s))) \<Longrightarrow> hoare P (atomic f) Q"
  by (simp add: hoare_def atomic_def)

lemma hoare_cond:
  assumes "\<And>s. P s \<Longrightarrow> R (interfere s)"
    and "hoare (\<lambda>s. R s \<and> c s) f Q" and "hoare (\<lambda>s. R s \<and> \<not> c s) g Q"
  shows "hoare P (cond c f g) Q"
  unfolding cond_def
  by (rule hoare_atomic[where R = R]) (use assms in \<open>auto simp: hoare_def\<close>)

lemma stable_log: "stable ok I \<Longrightarrow> ok (Log l m) \<Longrightarrow> hoare I (log l m) I"
  unfolding log_def stable_def by (rule hoare_atomic[where R = I]) simp_all

lemma stable_sleep: "stable ok I \<Longrightarrow> ok (Sleep n) \<Longrightarrow> hoare I (sleep n) I"
  unfolding sleep_def stable_def by (rule hoare_atomic[where R = I]) simp_all


lemma stable_gpio_output: "stable ok I \<Longrightarrow> ok (GpioOut v) \<Longrightarrow> hoare I (gpio_output v) I"
  unfolding gpio_output_def stable_def by (rule hoare_atomic[where R = I]) simp_all

lemma stable_pulse:
  assumes "stable ok I" and "\<And>e. is_send_event e \<Longrightarrow> ok e"
  shows "hoare I send_light_pulse I"
  unfolding send_light_pulse_def
  by (intro hoare_block_Cons hoare_block_Nil stable_gpio_output[OF assms(1)]
        stable_sleep[OF assms(1)] assms(2)) simp_all

lemma stable_send_pin:
  assumes st: "stable ok I" and ok: "\<And>e. is_send_event e \<Longrightarrow> ok e"
    and start: "hoare P (log INFO (MsgPinStart pin_str)) I"
  shows "hoare P (send_pin pin_str) I"
proof -
  have digit: "hoare I
       (case int_of_char c of
         None \<Rightarrow> raise ValueError
       | Some target_digit \<Rightarrow> block [
           log INFO (MsgDigit (i + 1) target_digit),
           for_range 0 target_digit (\<lambda>pulse_count. block [send_light_pulse, sleep 100]),
           if_then (i < 3) (block [log INFO MsgWaitDigit, sleep 3100])]) I" for i c
  proof (cases "int_of_char c")
    case None
    then show ?thesis by (simp add: hoare_raise)
  next
    case (Some d)
    show ?thesis
      unfolding Some option.case
      by (intro hoare_block_Cons hoare_block_Nil hoare_for_range hoare_if_then
            stable_log[OF st] stable_sleep[OF st] stable_pulse[OF st] ok) simp_all
  qed
  have tail: "hoare I (block [send_light_pulse, sleep 1000,
     for_each (List.enumerate 0 pin_str) (\<lambda>(i, digit_char).
       case int_of_char digit_char of
         None \<Rightarrow> raise ValueError
       | Some target_digit \<Rightarrow> block [
           log INFO (MsgDigit (i + 1) target_digit),
           for_range 0 target_digit (\<lambda>pulse_count. block [send_light_pulse, sleep 100]),
           if_then (i < 3) (block [log INFO MsgWaitDigit, sleep 3100])]),
     log INFO MsgPinDone]) I"
    by (intro hoare_block_Cons hoare_block_Nil hoare_for_each
          stable_log[OF st] stable_sleep[OF st] stable_pulse[OF st] ok)
       (simp_all add: case_prod_beta digit)
  show ?thesis
    unfolding send_pin_def
    by (rule hoare_block_step[OF start tail])
qed

subsection \<open>A run that nothing disturbs\<close>



lemma undisturbed_updates [simp]:
  "undisturbed (emit e s) = undisturbed s" "undisturbed (s\<lparr>line := v\<rparr>) = undisturbed s"
  "undisturbed (s\<lparr>last_pin := p\<rparr>) = undisturbed s"
  "undisturbed (s\<lparr>running := r\<rparr>) = undisturbed s"
  "undisturbed (s\<lparr>threads := ts\<rparr>) = undisturbed s"
  by (simp_all add: undisturbed_def emit_def)













lemma emits_weaken_post:
  "emits P Q keep f evs \<Longrightarrow> (\<And>s. Q s \<Longrightarrow> Q' s) \<Longrightarrow> emits P Q' keep f evs"
  unfolding emits_def by blast



lemma str_nat_small: "n < 10 \<Longrightarrow> str_nat n = [digit_char n]"
  by (subst str_nat.simps) simp

lemma str_nat_large: "10 \<le> n \<Longrightarrow> str_nat n = str_nat (n div 10) @ [digit_char (n mod 10)]"
  by (subst str_nat.simps) simp

lemma digit_char_0: "digit_char 0 = CHR ''0''"
  by (simp add: digit_char_def)

lemma format_04d_four:
  assumes "i < 10000"
  shows "format_04d i =
     [digit_char (i div 1000), digit_char (i div 100 mod 10), digit_char (i div 10 mod 10),
      digit_char (i mod 10)]"
proof -
  consider "i < 10" | "10 \<le> i" "i < 100" | "100 \<le> i" "i < 1000" | "1000 \<le> i" "i < 10000"
    using assms by linarith
  then show ?thesis
  proof cases
    case 1
    then show ?thesis
      by (simp add: format_04d_def str_nat_small digit_char_0 numeral_3_eq_3)
  next
    case 2
    then have "i div 10 < 10" "i div 100 = 0" "i div 1000 = 0" by auto
    then show ?thesis using 2
      by (simp add: format_04d_def str_nat_large str_nat_small digit_char_0 numeral_2_eq_2)
  next
    case 3
    then have a: "10 \<le> i div 10" "i div 10 < 100" "i div 10 div 10 < 10" "i div 1000 = 0"
      by auto
    have "i div 10 div 10 = i div 100" by (simp add: div_mult2_eq)
    then show ?thesis using 3 a
      by (simp add: format_04d_def str_nat_large str_nat_small digit_char_0)
  next
    case 4
    then have a: "10 \<le> i div 10" "10 \<le> i div 10 div 10" "i div 10 div 10 div 10 < 10"
      by auto
    have b: "i div 10 div 10 = i div 100" "i div 10 div 10 div 10 = i div 1000"
      by (simp_all add: div_mult2_eq)
    have c: "i div 1000 mod 10 = i div 1000" using 4 by simp
    show ?thesis using 4 a b
      by (simp add: format_04d_def str_nat_large str_nat_small)
  qed
qed

subsection \<open>The codes stored and the codes sent\<close>

lemma sure_atomic: "(\<And>s. \<exists>s'. f s = Ok s') \<Longrightarrow> sure (atomic f)"
  by (simp add: sure_def atomic_def)

lemma sure_prims:
  "sure (log l m)" "sure (sleep n)" "sure (set_last_pin p)" "sure (set_running b)"
  "sure (thread_start t)" "sure (thread_join t n)"
  by (simp_all add: log_def sleep_def set_last_pin_def set_running_def thread_start_def
      thread_join_def sure_atomic)

lemma hoare_seq_sure:
  assumes "sure f" and "hoare P f R" and "hoare R g Q"
  shows "hoare P (seq f g) Q"
proof (rule hoareI)
  fix s assume p: "P s"
  obtain s1 where s1: "f s = Ok s1" using assms(1) by (auto simp: sure_def)
  then have "R s1" using hoareD[OF assms(2) p] by simp
  then show "Q (state_of (seq f g s))"
    using s1 hoareD[OF assms(3), of s1] by (simp add: seq_def)
qed

lemma hoare_block_sure:
  "sure f \<Longrightarrow> hoare P f R \<Longrightarrow> hoare R (block fs) Q \<Longrightarrow> hoare P (block (f # fs)) Q"
  by (simp add: block.simps hoare_seq_sure)

lemma stable_set_running:
  assumes "stable ok I" and "ok (SetRunning b)" and "\<And>s. I s \<Longrightarrow> I (s\<lparr>running := b\<rparr>)"
  shows "hoare I (set_running b) I"
  unfolding set_running_def
proof (rule hoare_atomic[where R = I])
  fix s assume "I s"
  then have "I (emit (SetRunning b) (s\<lparr>running := b\<rparr>))"
    using assms unfolding stable_def by blast
  then show "I (state_of (Ok (assign_running b s)))" by (simp add: assign_running_def)
qed (use assms(1) in \<open>simp add: stable_def\<close>)

lemma stable_thread_start:
  assumes "stable ok I" and "ok (ThreadStart t)" and "\<And>s ts. I s \<Longrightarrow> I (s\<lparr>threads := ts\<rparr>)"
  shows "hoare I (thread_start t) I"
  unfolding thread_start_def
proof (rule hoare_atomic[where R = I])
  fix s assume "I s"
  then have "I (emit (ThreadStart t) (s\<lparr>threads := threads s @ [t]\<rparr>))"
    using assms unfolding stable_def by blast
  then show "I (state_of (Ok (spawn t s)))" by (simp add: spawn_def)
qed (use assms(1) in \<open>simp add: stable_def\<close>)




lemma no_pin_events [simp]:
  "is_send_event e \<Longrightarrow> no_pin e"
  "no_pin (Log INFO MsgStoppedByUser)" "no_pin (Log INFO (MsgTestPin p))"
  "no_pin (Log INFO MsgBruteStart)" "no_pin (Log ERROR (MsgBruteError x))"
  "no_pin (Log INFO MsgBruteDone)" "no_pin (ThreadJoin t n)" "no_pin (Sleep n)"
  "no_pin (GpioOut v)" "no_pin (SetRunning b)" "no_pin (ThreadStart t)"
  by (cases e rule: is_send_event.cases; simp add: no_pin_def) (simp_all add: no_pin_def)












subsection \<open>What a run leaves behind\<close>


lemma pin_after_snoc [simp]: "pin_after p (evs @ [e]) = pin_step (pin_after p evs) e"
  by (simp add: pin_after_def)









lemma joined_interfere: "joined n0 s \<Longrightarrow> joined n0 (interfere s)"
  by (auto simp: joined_def interfere_def request_stop_def)

lemma stable_joined: "stable (\<lambda>e. True) (joined n0)"
  unfolding stable_def
  by (intro conjI allI impI joined_interfere) (auto simp: joined_def)

lemma grown_interfere: "grown n0 s \<Longrightarrow> grown n0 (interfere s)"
  by (auto simp: grown_def interfere_def request_stop_def assign_running_def emit_def)

lemma stable_grown: "stable (\<lambda>e. True) (grown n0)"
  unfolding stable_def
  by (intro conjI allI impI grown_interfere) (auto simp: grown_def)

lemma grown_bruteforce_try: "hoare (grown n0) bruteforce_try (grown n0)"
proof -
  have send: "hoare (grown n0) (send_pin p) (grown n0)" for p
    by (rule stable_send_pin[OF stable_grown _ stable_log[OF stable_grown]]) simp_all
  have pin: "hoare (grown n0) (set_last_pin p) (grown n0)" for p
    unfolding set_last_pin_def
    by (rule hoare_atomic[where R = "grown n0"]) (simp_all add: grown_interfere, simp add: grown_def)
  have att: "hoare (grown n0) (attempt i) (grown n0)" for i
    unfolding attempt_def Let_def
  proof (rule hoare_cond[where R = "grown n0"])
    show "hoare (\<lambda>s. grown n0 s \<and> \<not> running s) (block [log INFO MsgStoppedByUser, break_loop]) (grown n0)"
      by (rule hoare_weaken[where P = "grown n0" and Q = "grown n0"])
         (intro hoare_block_Cons hoare_block_Nil hoare_break stable_log[OF stable_grown], simp_all)
    show "hoare (\<lambda>s. grown n0 s \<and> \<not> \<not> running s)
       (block [set_last_pin (format_04d i), log INFO (MsgTestPin (format_04d i)),
               send_pin (format_04d i), sleep 3000]) (grown n0)"
      by (rule hoare_weaken[where P = "grown n0" and Q = "grown n0"])
         (intro hoare_block_Cons hoare_block_Nil pin send stable_log[OF stable_grown]
            stable_sleep[OF stable_grown], simp_all)
  qed (rule grown_interfere)
  show ?thesis
    unfolding bruteforce_try_def bruteforce_body_def
    by (intro hoare_block_Cons hoare_block_Nil hoare_try_except[where R = "grown n0"]
          hoare_for_range att stable_log[OF stable_grown]) simp_all
qed

lemma joined_finally: "hoare (grown n0) bruteforce_finally (joined n0)"
proof -
  let ?idle = "\<lambda>s. grown n0 s \<and> \<not> running s"
  have clear: "hoare (grown n0) (set_running False) ?idle"
    unfolding set_running_def
    by (rule hoare_atomic[where R = "grown n0"])
       (simp_all add: grown_interfere, simp add: grown_def assign_running_def)
  have join: "hoare ?idle (thread_join RecordThread 5000) (joined n0)"
    unfolding thread_join_def
  proof (rule hoare_atomic[where R = ?idle])
    fix s assume "grown n0 s \<and> \<not> running s"
    then show "grown n0 (interfere s) \<and> \<not> running (interfere s)"
      by (simp add: grown_interfere interfere_running)
  next
    fix s assume "grown n0 s \<and> \<not> running s"
    then show "joined n0 (state_of (Ok (emit (ThreadJoin RecordThread 5000) s)))"
      by (simp add: grown_def joined_def)
  qed
  have rest: "hoare (joined n0) (block [gpio_output False, log INFO MsgBruteDone]) (joined n0)"
    by (intro hoare_block_Cons hoare_block_Nil stable_gpio_output[OF stable_joined]
          stable_log[OF stable_joined]) simp_all
  show ?thesis
    unfolding bruteforce_finally_def
    by (intro hoare_block_sure[OF sure_prims(4) clear] hoare_block_sure[OF sure_prims(6) join] rest)
qed

lemma joined_bruteforce_pins: "joined (length (trace s)) (state_of (bruteforce_pins s))"
proof -
  let ?n = "length (trace s)"
  have run: "hoare (grown ?n) (set_running True) (grown ?n)"
    by (rule stable_set_running[OF stable_grown]) (simp_all add: grown_def)
  have th: "hoare (grown ?n) (thread_start RecordThread) (grown ?n)"
    by (rule stable_thread_start[OF stable_grown]) (simp_all add: grown_def)
  have tf: "hoare (grown ?n) (try_finally bruteforce_try bruteforce_finally) (joined ?n)"
    by (rule hoare_try_finally[OF grown_bruteforce_try joined_finally])
  have b1: "hoare (grown ?n) (block [try_finally bruteforce_try bruteforce_finally]) (joined ?n)"
    by (rule hoare_block_step[OF tf hoare_block_Nil])
  have "hoare (grown ?n) bruteforce_pins (joined ?n)"
    unfolding bruteforce_pins_def
    by (intro hoare_block_sure[OF sure_prims(4) run] hoare_block_sure[OF sure_prims(5) th] b1)
  moreover have "grown ?n s" by (simp add: grown_def)
  ultimately show ?thesis by (simp add: hoare_def)
qed



subsection \<open>Runs on concrete inputs\<close>

lemmas exec_defs = bruteforce_pins_def bruteforce_try_def bruteforce_body_def bruteforce_finally_def
  attempt_def send_pin_def send_light_pulse_def
  block.simps seq_def try_finally_def try_except_def if_then_def
  log_def sleep_def gpio_output_def set_running_def set_last_pin_def
  thread_start_def thread_join_def cond_def atomic_def skip_def raise_def break_loop_def
  interfere_def request_stop_def assign_running_def emit_def spawn_def Let_def

lemma format_0: "format_04d 0 = ''0000''"
  by (simp add: format_04d_four digit_char_def)

lemma format_1: "format_04d (Suc 0) = ''0001''"
  using format_04d_four[of 1] by (simp add: digit_char_def)

lemma int_of_char_01: "int_of_char (CHR ''0'') = Some 0" "int_of_char (CHR ''1'') = Some 1"
  by (simp_all add: int_of_char_def upt_conv_Cons)





subsection \<open>C2: a stop request followed by a start request\<close>

text \<open>
  The order of the codes is that of \<open>run_to_exhaustion\<close> and \<open>format_04d_four\<close>: a run
  that nothing disturbs sends the four decimal digits of 0, 1, ..., 9999 in ascending
  order. The states below follow a stop request and a start request handled while the loop
  of the first thread is alive.
\<close>

lemma flag_set_again_state:
  "flag_set_again =
     \<lparr>running = True, last_pin = None, camera = Some (VideoCapture True),
      gpio_setup = True, line = False, images = [], writers = [], videos = [],
      threads = [BruteforceThread, RecordThread, BruteforceThread],
      trace = [CamSetWidth 640, CamSetHeight 480, Log INFO MsgCameraInit,
               ThreadStart BruteforceThread, Log INFO (MsgStatus StatusStarted),
               SetRunning True, ThreadStart RecordThread, Log INFO MsgBruteStart,
               SetRunning False, Log INFO (MsgStatus StatusStopping),
               ThreadStart BruteforceThread, Log INFO (MsgStatus StatusStarted),
               SetRunning True],
      clock = 5, world = calm_world\<rparr>"
  by (simp add: flag_set_again_def restart_handled_def stop_handled_def loop_started_def
      ready_def init_camera_def boot_def calm_world_def start_thread_def spawn_def
      request_stop_def assign_running_def emit_def
      block.simps seq_def prim_defs interfere_def Let_def)

lemma stop_handled_state:
  "fst (index (POST (Some ''stop'')) loop_started) = Some StatusStopping"
  "\<not> running stop_handled"
  "\<not> is_Ok (attempt 0 stop_handled)"
  "fst (index (POST (Some ''start'')) stop_handled) = Some StatusStarted"
  by (simp_all add: stop_handled_def loop_started_def
      ready_def init_camera_def boot_def calm_world_def start_thread_def spawn_def
      request_stop_def assign_running_def emit_def attempt_def
      block.simps seq_def prim_defs interfere_def Let_def)

lemma first_loop_goes_on:
  "is_Ok (attempt 0 flag_set_again)"
  "is_Ok (attempt 1 (state_of (attempt 0 flag_set_again)))"
  "filter is_send_start (after_stop (trace (state_of (attempt 1 (state_of (attempt 0 flag_set_again))))))
     = [Log INFO (MsgPinStart ''0000''), Log INFO (MsgPinStart ''0001'')]"
  "sends_after_stop (trace (state_of (attempt 1 (state_of (attempt 0 flag_set_again))))) = 2"
  unfolding flag_set_again_state
  by (simp_all add: exec_defs calm_world_def format_0 format_1 int_of_char_01
       for_range.simps[of 0] for_range.simps[of "Suc 0"]
       sends_after_stop_def after_stop_def stop_log_def)

text \<open>
  Claim C2, at the input where the program departs from it. The loop of the first thread
  is alive when a stop request clears the flag; without anything else, the next pass
  through the loop would end it. A start request handled next is accepted, because the
  guard of \<open>index\<close> only reads the flag, and the first statement of the second thread sets
  the flag again. The next two passes through the loop of the first thread then both send
  a code: two transmissions start after the stop request, where the claim allows one.
\<close>

theorem stop_then_start_keeps_sending:
  "fst (index (POST (Some ''stop'')) loop_started) = Some StatusStopping
   \<and> \<not> running stop_handled
   \<and> \<not> is_Ok (attempt 0 stop_handled)
   \<and> fst (index (POST (Some ''start'')) stop_handled) = Some StatusStarted
   \<and> is_Ok (attempt 0 flag_set_again)
   \<and> is_Ok (attempt 1 (state_of (attempt 0 flag_set_again)))
   \<and> filter is_send_start (after_stop (trace (state_of (attempt 1 (state_of (attempt 0 flag_set_again))))))
        = [Log INFO (MsgPinStart ''0000''), Log INFO (MsgPinStart ''0001'')]
   \<and> sends_after_stop (trace (state_of (attempt 1 (state_of (attempt 0 flag_set_again))))) = 2"
  using stop_handled_state first_loop_goes_on by blast

subsection \<open>C6: the end of a run\<close>




subsection \<open>C10: the current code\<close>




subsection \<open>C4: an exception in the loop\<close>

lemma block_two_then:
  assumes "block [f, g] s = Ok s1"
  shows "block [f, g, h] s = h s1"
proof -
  obtain a where a: "f s = Ok a" using assms by (auto simp: block.simps seq_def split: res.splits)
  then have "g a = Ok s1" using assms by (auto simp: block.simps seq_def skip_def split: res.splits)
  then show ?thesis using a by (cases "h s1") (simp_all add: block.simps seq_def skip_def)
qed

lemma finally_effect:
  assumes "gpio_setup s" and "\<not> gpio_fault (world s) (Suc (Suc (Suc (clock s))))"
  shows "\<exists>s'. bruteforce_finally s = Ok s' \<and> \<not> running s' \<and> \<not> line s'"
  using assms
  unfolding bruteforce_finally_def block.simps seq_def prim_defs
  by (simp add: assign_running_def interfere_running)

text \<open>
  Claim C4, as the program has it. When the loop raises an exception that \<open>except
  Exception\<close> catches, the error is logged first and then the finally block runs; the flag is
  false afterwards; and if the GPIO driver accepts the write of the finally block, the run
  returns normally with the line low.
\<close>

theorem loop_error_handling:
  assumes "block [set_running True, thread_start RecordThread] s = Ok s1"
    and "bruteforce_body s1 = Raise e s2" and "is_Exception e"
  shows "bruteforce_pins s = bruteforce_finally (emit (Log ERROR (MsgBruteError e)) (interfere s2))
     \<and> \<not> running (state_of (bruteforce_pins s))
     \<and> (gpio_setup s2 \<and> \<not> gpio_fault (world s2) (clock s2 + 4)
          \<longrightarrow> (\<exists>s'. bruteforce_pins s = Ok s' \<and> \<not> running s' \<and> \<not> line s'))"
proof -
  let ?s3 = "emit (Log ERROR (MsgBruteError e)) (interfere s2)"
  have "bruteforce_try s1 = Ok ?s3"
    using assms(2,3) by (simp add: bruteforce_try_def try_except_def log_def atomic_def)
  then have "try_finally bruteforce_try bruteforce_finally s1 = bruteforce_finally ?s3"
    by (simp add: try_finally_def)
  then have eq: "bruteforce_pins s = bruteforce_finally ?s3"
    using block_two_then[OF assms(1)] by (simp add: bruteforce_pins_def)
  have idle: "\<not> running (state_of (bruteforce_pins s))"
    using joined_bruteforce_pins[of s] by (simp add: joined_def)
  have four: "clock s2 + 4 = Suc (Suc (Suc (Suc (clock s2))))" by simp
  have "\<exists>s'. bruteforce_finally ?s3 = Ok s' \<and> \<not> running s' \<and> \<not> line s'"
    if "gpio_setup s2" "\<not> gpio_fault (world s2) (clock s2 + 4)"
    using that unfolding four by (intro finally_effect) simp_all
  then show ?thesis using eq idle by simp
qed

lemma glitch_run:
  "block [set_running True, thread_start RecordThread] (boot glitch_world) = Ok glitch_entry"
  "bruteforce_body glitch_entry = Raise RuntimeError glitch_raised"
  "gpio_setup glitch_raised" "\<not> gpio_fault (world glitch_raised) (clock glitch_raised + 4)"
  by (simp_all add: glitch_raised_def glitch_entry_def exec_defs boot_def glitch_world_def
      calm_world_def for_range.simps[of 0] format_0)

theorem loop_error_handling_witness:
  "block [set_running True, thread_start RecordThread] (boot glitch_world) = Ok glitch_entry
   \<and> bruteforce_body glitch_entry = Raise RuntimeError glitch_raised
   \<and> is_Exception RuntimeError
   \<and> gpio_setup glitch_raised \<and> \<not> gpio_fault (world glitch_raised) (clock glitch_raised + 4)
   \<and> (\<exists>s'. bruteforce_pins (boot glitch_world) = Ok s' \<and> \<not> running s' \<and> \<not> line s')"
proof -
  have e: "is_Exception RuntimeError" by simp
  from loop_error_handling [OF glitch_run(1) glitch_run(2) e] glitch_run(3,4)
  have "\<exists>s'. bruteforce_pins (boot glitch_world) = Ok s' \<and> \<not> running s' \<and> \<not> line s'"
    by blast
  then show ?thesis using glitch_run e by blast
qed

text \<open>
  Claim C4 as stated fails. With a single failing GPIO write the error is logged before
  the flag is cleared and the line driven low, not after. With a GPIO channel that was never
  set up, the write in the finally block raises again: the exception leaves
  \<open>bruteforce_pins\<close> and the line is not driven low.
\<close>

theorem error_report_counterexample:
  "trace (state_of (bruteforce_pins (boot glitch_world))) =
     [SetRunning True, ThreadStart RecordThread, Log INFO MsgBruteStart, SetLastPin ''0000'',
      Log INFO (MsgTestPin ''0000''), Log INFO (MsgPinStart ''0000''),
      Log ERROR (MsgBruteError RuntimeError), SetRunning False, ThreadJoin RecordThread 5000,
      GpioOut False, Log INFO MsgBruteDone]
   \<and> raised (bruteforce_pins no_gpio_state) = Some RuntimeError
   \<and> GpioOut False \<notin> set (trace (state_of (bruteforce_pins no_gpio_state)))"
  by (simp add: exec_defs boot_def glitch_world_def no_gpio_state_def calm_world_def
      for_range.simps[of 0] format_0)

subsection \<open>C7: the recording\<close>

lemma cleared_by_interfere:
  assumes "cleared_by t s"
  shows "cleared_by t (interfere s)"
proof (cases "clock s = t")
  case True
  then show ?thesis
    using assms by (auto simp: cleared_by_def interfere_def request_stop_def assign_running_def emit_def)
next
  case False
  then have "clock s < t \<or> \<not> running s" using assms by (auto simp: cleared_by_def)
  then show ?thesis
    using assms by (auto simp: cleared_by_def interfere_def request_stop_def assign_running_def emit_def)
qed

lemma cleared_by_emit [simp]: "cleared_by t (emit e s) = cleared_by t s"
  by (simp add: cleared_by_def)

lemma cleared_by_images [simp]: "cleared_by t (s\<lparr>images := x\<rparr>) = cleared_by t s"
  by (simp add: cleared_by_def)

lemma cleared_by_stops:
  assumes "cleared_by t s" and "running (interfere s)"
  shows "clock s < t"
proof (rule ccontr)
  assume "\<not> clock s < t"
  then have "clock s = t \<or> \<not> running s" using assms(1) by (auto simp: cleared_by_def)
  then have "\<not> running (interfere s)"
    using assms(1) by (auto simp: cleared_by_def interfere_def request_stop_def assign_running_def emit_def)
  then show False using assms(2) by simp
qed

lemma frames_ok_interfere:
  "n0 \<le> length (trace s) \<Longrightarrow> frames_ok n0 (interfere s) = frames_ok n0 s"
  by (auto simp: frames_ok_def interfere_def request_stop_def assign_running_def emit_def)

lemma frames_ok_emit:
  "n0 \<le> length (trace s) \<Longrightarrow>
   frames_ok n0 (emit e s) = frames_ok n0 s + (if e = CamRead True then 1 else 0)"
  by (simp add: frames_ok_def)

lemma frames_ok_images [simp]: "frames_ok n0 (s\<lparr>images := x\<rparr>) = frames_ok n0 s"
  by (simp add: frames_ok_def)

lemma length_trace_emit [simp]: "length (trace (emit e s)) = Suc (length (trace s))"
  by simp

lemma grow_interfere: "n0 \<le> length (trace s) \<Longrightarrow> n0 \<le> length (trace (interfere s))"
  using interfere_trace_length[of s] by simp

lemma idle_interfere: "\<not> running s \<Longrightarrow> trace (interfere s) = trace s"
  by (simp add: interfere_def request_stop_def)

lemma capture_tick_effect:
  assumes "camera s = Some c" and "cleared_by t s" and "n0 \<le> length (trace s)"
  shows "\<exists>k' s'. capture_tick ts vp k s = (k', Ok s')
     \<and> same_devices s s' \<and> cleared_by t s' \<and> n0 \<le> length (trace s') \<and> clock s < clock s'
     \<and> images s' = images s @ map (image_name ts) [k..<k']
     \<and> frames_ok n0 s' + k = frames_ok n0 s + k' \<and> k \<le> k'"
proof -
  let ?s1 = "interfere s"
  let ?ret = "isOpened c \<and> frame_ok (world ?s1) (clock ?s1)"
  have 1: "cleared_by t ?s1" "n0 \<le> length (trace ?s1)"
    using assms by (simp_all add: cleared_by_interfere grow_interfere)
  show ?thesis
  proof (cases ?ret)
    case True
    then show ?thesis
      using assms(1,3) 1
      by (simp add: capture_tick_def Let_def block.simps seq_def log_def sleep_def atomic_def
          skip_def same_devices_def cleared_by_interfere grow_interfere frames_ok_interfere
          frames_ok_emit le_SucI upt_conv_Cons)
  next
    case False
    then show ?thesis
      using assms(1,3) 1
      by (simp add: capture_tick_def Let_def block.simps seq_def log_def sleep_def atomic_def
          skip_def same_devices_def cleared_by_interfere grow_interfere frames_ok_interfere
          frames_ok_emit le_SucI)
  qed
qed

lemma same_devices_trans: "same_devices a b \<Longrightarrow> same_devices b c \<Longrightarrow> same_devices a c"
  by (simp add: same_devices_def)

lemma same_devices_interfere: "same_devices s (interfere s)"
  by (simp add: same_devices_def)

lemma capture_loop_returns:
  assumes "camera s = Some c" and "cleared_by t s" and "n0 \<le> length (trace s)"
  shows "\<exists>s' k'. capture_loop ts vp k s = Some (Ok s')
     \<and> same_devices s s' \<and> \<not> running s' \<and> n0 \<le> length (trace s')
     \<and> images s' = images s @ map (image_name ts) [k..<k']
     \<and> frames_ok n0 s' + k = frames_ok n0 s + k' \<and> k \<le> k'"
  using assms
proof (induction "Suc t - clock s" arbitrary: s k rule: less_induct)
  case less
  let ?s1 = "interfere s"
  have s1: "camera ?s1 = Some c" "cleared_by t ?s1" "n0 \<le> length (trace ?s1)"
    "frames_ok n0 ?s1 = frames_ok n0 s" "images ?s1 = images s"
    using less.prems by (simp_all add: cleared_by_interfere grow_interfere frames_ok_interfere)
  show ?case
  proof (cases "running ?s1")
    case False
    then have "capture_loop ts vp k s = Some (Ok ?s1)"
      by (subst capture_loop.simps) (simp add: Let_def)
    then show ?thesis
      using False s1 same_devices_interfere[of s] by (intro exI[of _ ?s1] exI[of _ k]) simp
  next
    case True
    then have lt: "clock s < t" using less.prems(2) by (rule cleared_by_stops[rotated])
    from capture_tick_effect[OF s1(1,2,3), of ts vp k]
    obtain k1 s2 where tick: "capture_tick ts vp k ?s1 = (k1, Ok s2)"
      "same_devices ?s1 s2" "cleared_by t s2" "n0 \<le> length (trace s2)" "clock ?s1 < clock s2"
      "images s2 = images ?s1 @ map (image_name ts) [k..<k1]"
      "frames_ok n0 s2 + k = frames_ok n0 ?s1 + k1" "k \<le> k1"
      by blast
    have cam2: "camera s2 = Some c" using tick(2) s1(1) by (simp add: same_devices_def)
    have m: "Suc t - clock s2 < Suc t - clock s" using lt tick(5) by simp
    from less.hyps[OF m cam2 tick(3,4), of k1]
    obtain s' k' where rest: "capture_loop ts vp k1 s2 = Some (Ok s')"
      "same_devices s2 s'" "\<not> running s'" "n0 \<le> length (trace s')"
      "images s' = images s2 @ map (image_name ts) [k1..<k']"
      "frames_ok n0 s' + k1 = frames_ok n0 s2 + k'" "k1 \<le> k'"
      by blast
    have loop: "capture_loop ts vp k s = Some (Ok s')"
      using True tick(1) rest(1) by (subst capture_loop.simps) (simp add: Let_def)
    have dev: "same_devices s s'"
      using same_devices_interfere[of s] tick(2) rest(2) same_devices_trans by blast
    have "[k..<k'] = [k..<k1] @ [k1..<k']"
      using tick(8) rest(7) by (metis le_Suc_ex upt_add_eq_append)
    then have img: "images s' = images s @ map (image_name ts) [k..<k']"
      using rest(5) tick(6) s1(5) by simp
    have cnt: "frames_ok n0 s' + k = frames_ok n0 s + k'"
      using rest(6) tick(7) s1(4) by simp
    show ?thesis
      using loop dev rest(3,4) img cnt tick(8) rest(7)
      by (intro exI[of _ s'] exI[of _ k']) simp
  qed
qed

lemma recording_prologue:
  assumes "cleared_by t s"
  shows "\<exists>s2. block [video_writer vp, log INFO (MsgVideoStart vp)] (interfere (interfere s)) = Ok s2
     \<and> world s2 = world s \<and> camera s2 = camera s \<and> cleared_by t s2
     \<and> length (trace s) \<le> length (trace s2) \<and> frames_ok (length (trace s)) s2 = 0
     \<and> images s2 = images s \<and> writers s2 = writers s @ [vp] \<and> videos s2 = videos s"
proof -
  let ?n = "length (trace s)"
  have 0: "?n \<le> length (trace s)" "frames_ok ?n s = 0" by (simp_all add: frames_ok_def)
  let ?a = "interfere (interfere (interfere s))"
  have a: "?n \<le> length (trace ?a)" "frames_ok ?n ?a = 0" "cleared_by t ?a"
    using 0 assms by (simp_all add: grow_interfere frames_ok_interfere cleared_by_interfere)
  let ?b = "emit (VideoOpen vp) (?a\<lparr>writers := writers ?a @ [vp]\<rparr>)"
  have b: "?n \<le> length (trace ?b)" "frames_ok ?n ?b = 0" "cleared_by t ?b"
    using a by (simp_all add: frames_ok_def cleared_by_def emit_def)
  let ?c = "interfere ?b"
  have c: "?n \<le> length (trace ?c)" "frames_ok ?n ?c = 0" "cleared_by t ?c"
    using b by (simp_all add: grow_interfere frames_ok_interfere cleared_by_interfere)
  let ?d = "emit (Log INFO (MsgVideoStart vp)) ?c"
  have d: "?n \<le> length (trace ?d)" "frames_ok ?n ?d = 0" "cleared_by t ?d"
    using c by (simp_all add: frames_ok_emit)
  have "block [video_writer vp, log INFO (MsgVideoStart vp)] (interfere (interfere s)) = Ok ?d"
    by (simp add: block.simps seq_def video_writer_def log_def atomic_def skip_def)
  then show ?thesis using d by (intro exI[of _ ?d]) simp
qed

lemma recording_epilogue:
  assumes "\<not> running s" and "n0 \<le> length (trace s)"
  shows "\<exists>s'. block [video_release vp, log INFO MsgVideoEnd] s = Ok s'
     \<and> trace s' = trace s @ [VideoRelease vp, Log INFO MsgVideoEnd]
     \<and> frames_ok n0 s' = frames_ok n0 s \<and> images s' = images s
     \<and> writers s' = removeAll vp (writers s) \<and> videos s' = videos s @ [vp]"
proof -
  let ?a = "interfere s"
  have a: "trace ?a = trace s" "\<not> running ?a"
    using assms(1) by (simp_all add: idle_interfere interfere_running)
  let ?b = "emit (VideoRelease vp) (?a\<lparr>writers := removeAll vp (writers ?a), videos := videos ?a @ [vp]\<rparr>)"
  have b: "trace ?b = trace s @ [VideoRelease vp]" "\<not> running ?b"
    using a by (simp_all add: emit_def)
  let ?c = "interfere ?b"
  have c: "trace ?c = trace s @ [VideoRelease vp]" "\<not> running ?c"
    using b by (simp_all add: idle_interfere interfere_running)
  let ?d = "emit (Log INFO MsgVideoEnd) ?c"
  have tr: "trace ?d = trace s @ [VideoRelease vp, Log INFO MsgVideoEnd]"
    using c by simp
  have run: "block [video_release vp, log INFO MsgVideoEnd] s = Ok ?d"
    by (simp add: block.simps seq_def video_release_def log_def atomic_def skip_def)
  have "frames_ok n0 ?d = frames_ok n0 s"
    using assms(2) unfolding frames_ok_def tr by simp
  then show ?thesis using tr run by (intro exI[of _ ?d]) simp
qed

lemma record_returns:
  assumes cam: "camera s \<noteq> None" and t: "clock s \<le> t" "stop_req (world s) t"
  shows "\<exists>s'. record_images_and_video s = Some (Ok s')
     \<and> videos s' = videos s @ [video_name (now_stamp (world s) (clock s + 2))]
     \<and> writers s' = removeAll (video_name (now_stamp (world s) (clock s + 2))) (writers s)
     \<and> images s' = images s @ map (image_name (now_stamp (world s) (clock s + 2)))
          [1..<Suc (frames_ok (length (trace s)) s')]
     \<and> (\<exists>pre. trace s' = pre @ [VideoRelease (video_name (now_stamp (world s) (clock s + 2))),
                                  Log INFO MsgVideoEnd])"
proof -
  let ?n = "length (trace s)"
  let ?ts = "now_stamp (world s) (clock s + 2)"
  let ?vp = "video_name ?ts"
  obtain c where c: "camera s = Some c" using cam by blast
  have cl: "cleared_by t s" using t by (simp add: cleared_by_def)
  from recording_prologue[OF cl, of ?vp]
  obtain s2 where s2: "block [video_writer ?vp, log INFO (MsgVideoStart ?vp)] (interfere (interfere s)) = Ok s2"
    "world s2 = world s" "camera s2 = camera s" "cleared_by t s2"
    "?n \<le> length (trace s2)" "frames_ok ?n s2 = 0"
    "images s2 = images s" "writers s2 = writers s @ [?vp]" "videos s2 = videos s"
    by blast
  have cam2: "camera s2 = Some c" using s2(3) c by simp
  from capture_loop_returns[OF cam2 s2(4,5), of ?ts ?vp 1]
  obtain s3 k' where s3: "capture_loop ?ts ?vp 1 s2 = Some (Ok s3)"
    "same_devices s2 s3" "\<not> running s3" "?n \<le> length (trace s3)"
    "images s3 = images s2 @ map (image_name ?ts) [1..<k']"
    "frames_ok ?n s3 + 1 = frames_ok ?n s2 + k'" "1 \<le> k'"
    by blast
  from recording_epilogue[OF s3(3,4), of ?vp]
  obtain s4 where s4: "block [video_release ?vp, log INFO MsgVideoEnd] s3 = Ok s4"
    "trace s4 = trace s3 @ [VideoRelease ?vp, Log INFO MsgVideoEnd]"
    "frames_ok ?n s4 = frames_ok ?n s3" "images s4 = images s3"
    "writers s4 = removeAll ?vp (writers s3)" "videos s4 = videos s3 @ [?vp]"
    by blast
  have run: "record_images_and_video s = Some (Ok s4)"
    using c s2(1) s3(1) s4(1) by (simp add: record_images_and_video_def Let_def)
  have k': "k' = Suc (frames_ok ?n s4)" using s3(6) s2(6) s4(3) by simp
  have w: "writers s4 = removeAll ?vp (writers s)"
    using s4(5) s3(2) s2(8) by (simp add: same_devices_def)
  have v: "videos s4 = videos s @ [?vp]"
    using s4(6) s3(2) s2(9) by (simp add: same_devices_def)
  have i: "images s4 = images s @ map (image_name ?ts) [1..<Suc (frames_ok ?n s4)]"
    using s4(4) s3(5) s2(7) k' by simp
  show ?thesis
    using run v w i s4(2) by (intro exI[of _ s4]) blast
qed

lemma count_event_interfere:
  "n0 \<le> length (trace s) \<Longrightarrow> e \<noteq> SetRunning False \<Longrightarrow> e \<noteq> Log INFO (MsgStatus StatusStopping) \<Longrightarrow>
   count_event e n0 (interfere s) = count_event e n0 s"
  by (auto simp: count_event_def interfere_def request_stop_def assign_running_def emit_def)

lemma count_event_emit:
  "n0 \<le> length (trace s) \<Longrightarrow>
   count_event e n0 (emit x s) = count_event e n0 s + (if x = e then 1 else 0)"
  by (simp add: count_event_def)

lemma count_event_fields [simp]:
  "count_event e n0 (s\<lparr>writers := w\<rparr>) = count_event e n0 s"
  "count_event e n0 (s\<lparr>videos := v\<rparr>) = count_event e n0 s"
  "count_event e n0 (s\<lparr>images := x\<rparr>) = count_event e n0 s"
  by (simp_all add: count_event_def)

lemma logged_interfere: "logged n0 s \<Longrightarrow> logged n0 (interfere s)"
  by (simp add: logged_def count_event_interfere grow_interfere)

lemma logged_emit:
  "logged n0 s \<Longrightarrow> e \<noteq> CamRead False \<Longrightarrow> e \<noteq> Log WARNING MsgNoFrame \<Longrightarrow>
   logged n0 (emit e s)"
  by (simp add: logged_def count_event_emit)

lemma logged_start: "logged (length (trace s)) s"
  by (simp add: logged_def count_event_def)

lemma capture_tick_logged:
  assumes "camera s = Some c" and "logged n0 s"
  shows "logged n0 (state_of (snd (capture_tick ts vp k s)))"
proof (cases "isOpened c \<and> frame_ok (world (interfere s)) (clock (interfere s))")
  case True
  then show ?thesis
    using assms
    by (simp add: capture_tick_def Let_def block.simps seq_def log_def sleep_def atomic_def
        skip_def logged_def count_event_interfere count_event_emit grow_interfere le_SucI)
next
  case False
  then show ?thesis
    using assms
    by (simp add: capture_tick_def Let_def block.simps seq_def log_def sleep_def atomic_def
        skip_def logged_def count_event_interfere count_event_emit grow_interfere le_SucI)
qed

lemma capture_loop_logged:
  assumes "camera s = Some c" and "cleared_by t s" and "logged n0 s"
  shows "\<exists>s'. capture_loop ts vp k s = Some (Ok s') \<and> logged n0 s'"
  using assms
proof (induction "Suc t - clock s" arbitrary: s k rule: less_induct)
  case less
  let ?s1 = "interfere s"
  have s1: "camera ?s1 = Some c" "cleared_by t ?s1" "logged n0 ?s1"
    using less.prems by (simp_all add: cleared_by_interfere logged_interfere)
  have n0: "n0 \<le> length (trace ?s1)" using s1(3) by (simp add: logged_def)
  show ?case
  proof (cases "running ?s1")
    case False
    then have "capture_loop ts vp k s = Some (Ok ?s1)"
      by (subst capture_loop.simps) (simp add: Let_def)
    then show ?thesis using s1 by simp
  next
    case True
    then have lt: "clock s < t" using less.prems(2) by (rule cleared_by_stops[rotated])
    from capture_tick_effect[OF s1(1,2) n0, of ts vp k]
    obtain k1 s2 where tick: "capture_tick ts vp k ?s1 = (k1, Ok s2)"
      "same_devices ?s1 s2" "cleared_by t s2" "clock ?s1 < clock s2"
      by blast
    have l2: "logged n0 s2"
      using capture_tick_logged[OF s1(1,3), of ts vp k] tick(1) by simp
    have cam2: "camera s2 = Some c"
      using tick(2) s1(1) by (simp add: same_devices_def)
    have m: "Suc t - clock s2 < Suc t - clock s" using lt tick(4) by simp
    from less.hyps[OF m cam2 tick(3) l2, of k1]
    obtain s' where rest: "capture_loop ts vp k1 s2 = Some (Ok s')" "logged n0 s'"
      by blast
    have "capture_loop ts vp k s = Some (Ok s')"
      using True tick(1) rest(1) by (subst capture_loop.simps) (simp add: Let_def)
    then show ?thesis using rest(2) by simp
  qed
qed

lemma prologue_logged:
  assumes "logged n0 s"
  shows "logged n0 (state_of (block [video_writer vp, log INFO (MsgVideoStart vp)] s))"
proof -
  let ?a = "interfere s"
  let ?b = "emit (VideoOpen vp) (?a\<lparr>writers := writers ?a @ [vp]\<rparr>)"
  let ?d = "emit (Log INFO (MsgVideoStart vp)) (interfere ?b)"
  have "logged n0 ?b"
    using logged_interfere[OF assms] by (simp add: logged_def count_event_def emit_def)
  then have "logged n0 ?d" by (simp add: logged_interfere logged_emit)
  moreover have "block [video_writer vp, log INFO (MsgVideoStart vp)] s = Ok ?d"
    by (simp add: block.simps seq_def video_writer_def log_def atomic_def skip_def)
  ultimately show ?thesis by simp
qed

lemma epilogue_logged:
  assumes "logged n0 s"
  shows "logged n0 (state_of (block [video_release vp, log INFO MsgVideoEnd] s))"
proof -
  let ?a = "interfere s"
  let ?b = "emit (VideoRelease vp) (?a\<lparr>writers := removeAll vp (writers ?a), videos := videos ?a @ [vp]\<rparr>)"
  let ?d = "emit (Log INFO MsgVideoEnd) (interfere ?b)"
  have "logged n0 ?b"
    using logged_interfere[OF assms] by (simp add: logged_def count_event_def emit_def)
  then have "logged n0 ?d" by (simp add: logged_interfere logged_emit)
  moreover have "block [video_release vp, log INFO MsgVideoEnd] s = Ok ?d"
    by (simp add: block.simps seq_def video_release_def log_def atomic_def skip_def)
  ultimately show ?thesis by simp
qed

lemma record_logged:
  assumes cam: "camera s \<noteq> None" and t: "clock s \<le> t" "stop_req (world s) t"
  shows "\<exists>s'. record_images_and_video s = Some (Ok s') \<and> logged (length (trace s)) s'"
proof -
  let ?n = "length (trace s)"
  let ?ts = "now_stamp (world s) (clock s + 2)"
  let ?vp = "video_name ?ts"
  obtain c where c: "camera s = Some c" using cam by blast
  have cl: "cleared_by t s" using t by (simp add: cleared_by_def)
  from recording_prologue[OF cl, of ?vp]
  obtain s2 where s2: "block [video_writer ?vp, log INFO (MsgVideoStart ?vp)] (interfere (interfere s)) = Ok s2"
    "camera s2 = camera s" "cleared_by t s2"
    by blast
  have "logged ?n (interfere (interfere s))" by (simp add: logged_start logged_interfere)
  from prologue_logged[OF this, of ?vp] have d2: "logged ?n s2" using s2(1) by simp
  have cam2: "camera s2 = Some c" using s2(2) c by simp
  from capture_loop_logged[OF cam2 s2(3) d2, of ?ts ?vp 1]
  obtain s3 where s3: "capture_loop ?ts ?vp 1 s2 = Some (Ok s3)" "logged ?n s3"
    by blast
  let ?s4 = "state_of (block [video_release ?vp, log INFO MsgVideoEnd] s3)"
  have ok: "block [video_release ?vp, log INFO MsgVideoEnd] s3 = Ok ?s4"
    by (simp add: block.simps seq_def video_release_def log_def atomic_def skip_def)
  have run: "record_images_and_video s = Some (Ok ?s4)"
    using c s2(1) s3(1) ok by (simp add: record_images_and_video_def Let_def)
  show ?thesis
    using run epilogue_logged[OF s3(2), of ?vp] by (intro exI[of _ ?s4]) simp
qed

text \<open>
  Claim C7, as the program has it. With a camera object, and with the flag cleared by
  another thread at some time, the recording function returns. It has then added exactly
  one video, named after the time of its start, and released its writer before the last
  log line; and it has written exactly one image for each frame that was read
  successfully, numbered from 1 in the order of capture. A read that fails gives no image
  and is logged: there are as many warnings about a missing frame as failed reads.
\<close>

theorem capture_artifacts:
  assumes "camera s \<noteq> None" and "clock s \<le> t" and "stop_req (world s) t"
  shows "\<exists>s'. record_images_and_video s = Some (Ok s')
     \<and> videos s' = videos s @ [video_name (now_stamp (world s) (clock s + 2))]
     \<and> video_name (now_stamp (world s) (clock s + 2)) \<notin> set (writers s')
     \<and> images s' = images s @ map (image_name (now_stamp (world s) (clock s + 2)))
          [1..<Suc (length (filter (\<lambda>e. e = CamRead True) (drop (length (trace s)) (trace s'))))]
     \<and> length (filter (\<lambda>e. e = Log WARNING MsgNoFrame) (drop (length (trace s)) (trace s')))
         = length (filter (\<lambda>e. e = CamRead False) (drop (length (trace s)) (trace s')))
     \<and> (\<exists>pre. trace s' = pre @ [VideoRelease (video_name (now_stamp (world s) (clock s + 2))),
                                  Log INFO MsgVideoEnd])"
proof -
  from record_returns[OF assms]
  obtain s' where a: "record_images_and_video s = Some (Ok s')"
     "videos s' = videos s @ [video_name (now_stamp (world s) (clock s + 2))]"
     "writers s' = removeAll (video_name (now_stamp (world s) (clock s + 2))) (writers s)"
     "images s' = images s @ map (image_name (now_stamp (world s) (clock s + 2)))
          [1..<Suc (frames_ok (length (trace s)) s')]"
     "\<exists>pre. trace s' = pre @ [VideoRelease (video_name (now_stamp (world s) (clock s + 2))),
                                  Log INFO MsgVideoEnd]"
    by blast
  from record_logged[OF assms] a(1) have "logged (length (trace s)) s'" by auto
  then have l: "length (filter (\<lambda>e. e = Log WARNING MsgNoFrame) (drop (length (trace s)) (trace s')))
         = length (filter (\<lambda>e. e = CamRead False) (drop (length (trace s)) (trace s')))"
    by (simp add: logged_def count_event_def)
  have w: "video_name (now_stamp (world s) (clock s + 2)) \<notin> set (writers s')"
    using a(3) by simp
  show ?thesis
    using a(1,2,4,5) w l unfolding frames_ok_def by (intro exI[of _ s']) simp
qed

lemma image_1: "image_name ''20240101_120000'' (Suc 0) = ''20240101_120000_0001.jpg''"
  using format_04d_four[of 1] by (simp add: image_name_def digit_char_def)

lemma flicker_run:
  "capture_summary (record_images_and_video flicker_state)
     = Some ([''20240101_120000_0001.jpg''], [CamRead False, CamRead True],
             [''session_20240101_120000.avi''], [])"
  by (simp add: capture_summary_def record_images_and_video_def capture_loop.simps capture_tick_def
      flicker_state_def flicker_world_def calm_world_def boot_def init_camera_def
      video_name_def image_1 pin_label_def
      block.simps seq_def prim_defs interfere_def request_stop_def assign_running_def emit_def
      Let_def)

theorem capture_artifacts_witness:
  "camera flicker_state \<noteq> None \<and> clock flicker_state \<le> 16 \<and> stop_req (world flicker_state) 16
   \<and> (\<exists>s'. record_images_and_video flicker_state = Some (Ok s')
          \<and> videos s' = [''session_20240101_120000.avi'']
          \<and> ''session_20240101_120000.avi'' \<notin> set (writers s'))"
proof -
  have h: "camera flicker_state \<noteq> None" "clock flicker_state \<le> 16"
    "stop_req (world flicker_state) 16"
    by (simp_all add: flicker_state_def flicker_world_def calm_world_def boot_def init_camera_def
        emit_def)
  have f: "videos flicker_state = []" "now_stamp (world flicker_state) (clock flicker_state + 2)
      = ''20240101_120000''"
    by (simp_all add: flicker_state_def flicker_world_def calm_world_def boot_def init_camera_def
        emit_def)
  from capture_artifacts [OF h]
  show ?thesis using h unfolding f by (auto simp: video_name_def)
qed

text \<open>
  Claim C7 as stated fails: in a recording of two passes through the loop, the first with
  a failed read, there are two reads and one image.
\<close>

theorem failed_read_counterexample:
  "capture_summary (record_images_and_video flicker_state)
     = Some ([''20240101_120000_0001.jpg''], [CamRead False, CamRead True],
             [''session_20240101_120000.avi''], [])"
  by (rule flicker_run)

subsection \<open>C5: a camera that does not open\<close>


text \<open>
  Only when no object is stored, which is the case after the constructor has raised, does
  \<open>index\<close> open the camera itself; if that fails, the request is answered with the error
  status and no thread is started.
\<close>

lemma start_rejected_without_object:
  assumes "camera s = None" and "\<not> running s" and "cam_open (world s) (Suc (clock s)) \<noteq> Opened"
  shows "fst (index (POST (Some ''start'')) s) = Some StatusCameraFailed
     \<and> threads (snd (index (POST (Some ''start'')) s)) = threads s
     \<and> \<not> running (snd (index (POST (Some ''start'')) s))"
  using assms
  by (cases "cam_open (world s) (Suc (clock s))") (simp_all add: init_camera_def emit_def)




lemma dark_fields [simp]:
  "dark n0 (s\<lparr>writers := w\<rparr>) = dark n0 s"
  "dark n0 (s\<lparr>writers := w, videos := v\<rparr>) = dark n0 s"
  by (simp_all add: dark_def count_event_def)











end
